theory Spec2Isabelle
  imports Complex_Main "HOL-Library.Word"
begin

unbundle bit_operations_syntax

section \<open>Protocol constants (common.h)\<close>

text \<open>
  The repository carries two copies of \<^verbatim>\<open>common.h\<close>: the one compiled into the receiver
  (\<^verbatim>\<open>server.cpp\<close>) and the one compiled into the sender (\<^verbatim>\<open>client.cpp\<close>). The first four
  constants are textually the same in both copies; the last two differ.
\<close>

datatype header_copy = Server_common_h | Client_common_h

definition SERVER_PORT :: int where
  "SERVER_PORT = 8888"

definition MAX_BUFFER_SIZE :: nat where
  "MAX_BUFFER_SIZE = 1500"

definition HEADER_SIZE :: nat where
  "HEADER_SIZE = 20"

definition MAX_DATA_SIZE :: nat where
  "MAX_DATA_SIZE = MAX_BUFFER_SIZE - HEADER_SIZE"

fun FLOW_CONTROL_WINDOW_SIZE :: "header_copy \<Rightarrow> int" where
  "FLOW_CONTROL_WINDOW_SIZE Server_common_h = 20"
| "FLOW_CONTROL_WINDOW_SIZE Client_common_h = 64"

fun PACKET_TIMEOUT_MS :: "header_copy \<Rightarrow> int" where
  "PACKET_TIMEOUT_MS Server_common_h = 500"
| "PACKET_TIMEOUT_MS Client_common_h = 1000"

section \<open>Packets and their memory image\<close>

text \<open>Packet flags: \<^verbatim>\<open>enum Flags { SYN = 1 << 0, ACK = 1 << 1, FIN = 1 << 2 }\<close>.\<close>

definition SYN :: "16 word" where "SYN = push_bit 0 1"
definition ACK :: "16 word" where "ACK = push_bit 1 1"
definition FIN :: "16 word" where "FIN = push_bit 2 1"

text \<open>
  \<^verbatim>\<open>struct Packet\<close> is packed (\<^verbatim>\<open>#pragma pack(push, 1)\<close>): its six header fields
  occupy 4 + 4 + 2 + 2 + 2 + 2 = 16 bytes and are followed by the array
  \<^verbatim>\<open>char data[MAX_DATA_SIZE]\<close>, so the object is 1496 bytes long, while \<^verbatim>\<open>HEADER_SIZE\<close>
  is 20.
\<close>

record Packet =
  seq_num :: "32 word"
  ack_num :: "32 word"
  flags :: "16 word"
  window_size :: "16 word"
  data_len :: "16 word"
  checksum :: "16 word"
  data :: "8 word list"

definition sizeof_Packet :: nat where
  "sizeof_Packet = 16 + MAX_DATA_SIZE"

text \<open>The value of \<^verbatim>\<open>Packet p = { 0 }\<close>.\<close>

definition zero_packet :: Packet where
  "zero_packet = \<lparr>seq_num = 0, ack_num = 0, flags = 0, window_size = 0, data_len = 0,
     checksum = 0, data = replicate MAX_DATA_SIZE 0\<rparr>"

text \<open>
  Both programs reinterpret a packet as raw memory (\<^verbatim>\<open>reinterpret_cast\<close>,
  \<^verbatim>\<open>(char*)&recv_packet\<close>). Fields are stored in host order, which is little-endian
  on the platform the programs are written for.
\<close>

definition le16 :: "16 word \<Rightarrow> 8 word list" where
  "le16 w = [ucast w, ucast (drop_bit 8 w)]"

definition le32 :: "32 word \<Rightarrow> 8 word list" where
  "le32 w = [ucast w, ucast (drop_bit 8 w), ucast (drop_bit 16 w), ucast (drop_bit 24 w)]"

definition rd16 :: "8 word \<Rightarrow> 8 word \<Rightarrow> 16 word" where
  "rd16 lo hi = ucast lo OR push_bit 8 (ucast hi)"

definition rd32 :: "8 word \<Rightarrow> 8 word \<Rightarrow> 8 word \<Rightarrow> 8 word \<Rightarrow> 32 word" where
  "rd32 b0 b1 b2 b3 =
     ucast b0 OR push_bit 8 (ucast b1) OR push_bit 16 (ucast b2) OR push_bit 24 (ucast b3)"

definition bytes_of :: "Packet \<Rightarrow> 8 word list" where
  "bytes_of p = le32 (seq_num p) @ le32 (ack_num p) @ le16 (flags p) @ le16 (window_size p)
     @ le16 (data_len p) @ le16 (checksum p) @ data p"

definition packet_of :: "8 word list \<Rightarrow> Packet" where
  "packet_of bs =
     \<lparr>seq_num = rd32 (bs ! 0) (bs ! 1) (bs ! 2) (bs ! 3),
      ack_num = rd32 (bs ! 4) (bs ! 5) (bs ! 6) (bs ! 7),
      flags = rd16 (bs ! 8) (bs ! 9),
      window_size = rd16 (bs ! 10) (bs ! 11),
      data_len = rd16 (bs ! 12) (bs ! 13),
      checksum = rd16 (bs ! 14) (bs ! 15),
      data = take MAX_DATA_SIZE (drop 16 bs)\<rparr>"

section \<open>Checksum (common.h, calculate\_checksum and verify\_checksum)\<close>

text \<open>
  \<^verbatim>\<open>calculate_checksum\<close> reads \<^verbatim>\<open>HEADER_SIZE + data_len\<close> bytes starting at the packet's
  address. Since the header fields take 16 bytes, this region always covers four bytes
  more than the payload, and for \<^verbatim>\<open>data_len > 1476\<close> it runs past the end of the object.
  The bytes that follow the object in memory are therefore an explicit argument
  \<open>beyond\<close> of the model; a read that leaves even this memory is the error
  \<open>OutOfBounds\<close>. With \<open>beyond = []\<close> every read past the object is an error.
\<close>

datatype error = OutOfBounds

text \<open>
  The summing loop \<^verbatim>\<open>while (size > 1) { sum += *p++; size -= 2; }\<close> followed by
  \<^verbatim>\<open>if (size > 0) sum += *(uint8_t*)p\<close>, over the bytes of the region; the accumulator \<open>acc\<close> is the source's
  \<^verbatim>\<open>uint32_t sum\<close>.
\<close>

fun sum_words :: "8 word list \<Rightarrow> 32 word \<Rightarrow> 32 word" where
  "sum_words (lo # hi # rest) acc = sum_words rest (acc + ucast (rd16 lo hi))"
| "sum_words [b] acc = acc + ucast b"
| "sum_words [] acc = acc"

text \<open>\<^verbatim>\<open>while (sum >> 16) sum = (sum & 0xFFFF) + (sum >> 16);\<close>\<close>

function fold_carries :: "32 word \<Rightarrow> 32 word" where
  "fold_carries acc =
     (if drop_bit 16 acc \<noteq> 0 then fold_carries ((acc AND 0xFFFF) + drop_bit 16 acc) else acc)"
  by pat_completeness auto
termination
proof (relation "measure unat")
  show "wf (measure (unat :: 32 word \<Rightarrow> nat))" by simp
next
  fix acc :: "32 word"
  assume nz: "drop_bit 16 acc \<noteq> 0"
  define n where "n = unat acc"
  define q where "q = n div 65536"
  define r where "r = n mod 65536"
  have m: "(0xFFFF :: 32 word) = mask 16" by (simp add: mask_eq_exp_minus_1)
  have lo: "unat (acc AND 0xFFFF) = r"
    unfolding m r_def n_def by (simp flip: take_bit_eq_mask add: take_bit_eq_mod unat_mod)
  have hi: "unat (drop_bit 16 acc) = q"
    unfolding q_def n_def by (simp add: drop_bit_eq_div unat_div)
  have "unat (drop_bit 16 acc) \<noteq> 0" using nz by (simp add: unat_eq_0)
  then have qpos: "0 < q" using hi by simp
  have n: "n = 65536 * q + r" by (simp add: q_def r_def)
  have "unat ((acc AND 0xFFFF) + drop_bit 16 acc) = (r + q) mod 2 ^ 32"
    by (simp add: unat_word_ariths lo hi)
  also have "\<dots> \<le> r + q" by simp
  also have "\<dots> < n" using n qpos by linarith
  finally show "((acc AND 0xFFFF) + drop_bit 16 acc, acc) \<in> measure unat"
    by (simp add: n_def)
qed

declare fold_carries.simps [simp del]

text \<open>
  \<^verbatim>\<open>calculate_checksum\<close> writes to the packet through \<^verbatim>\<open>const_cast\<close>, so the model returns
  the packet as the call leaves it together with the result.
\<close>

definition calculate_checksum :: "8 word list \<Rightarrow> Packet \<Rightarrow> error + (16 word \<times> Packet)" where
  "calculate_checksum beyond packet =
     (let size = HEADER_SIZE + unat (data_len packet);
          original_checksum = checksum packet;
          packet0 = packet\<lparr>checksum := 0\<rparr>;
          mem = bytes_of packet0 @ beyond
      in if length mem < size then Inl OutOfBounds
         else
           let acc = fold_carries (sum_words (take size mem) 0);
               packet1 = packet0\<lparr>checksum := original_checksum\<rparr>
           in Inr (ucast (NOT acc), packet1))"

definition verify_checksum :: "8 word list \<Rightarrow> Packet \<Rightarrow> error + (bool \<times> Packet)" where
  "verify_checksum beyond packet =
     (case calculate_checksum beyond packet of
        Inl e \<Rightarrow> Inl e
      | Inr (c, packet') \<Rightarrow> Inr (c = checksum packet', packet'))"

text \<open>The statement \<^verbatim>\<open>p.checksum = calculate_checksum(&p);\<close> used at every send.\<close>

definition assign_checksum :: "8 word list \<Rightarrow> Packet \<Rightarrow> error + Packet" where
  "assign_checksum beyond p =
     (case calculate_checksum beyond p of
        Inl e \<Rightarrow> Inl e
      | Inr (c, p') \<Rightarrow> Inr (p'\<lparr>checksum := c\<rparr>))"

subsection \<open>The checksum as the specification words it\<close>

text \<open>
  The specification's algorithm, on natural numbers: the region as 16-bit little-endian
  words, a final odd byte counting as a low byte; the words summed in a 32-bit
  accumulator; carries folded while the high 16 bits are nonzero; the 16-bit complement
  of the result.
\<close>

fun spec_words :: "8 word list \<Rightarrow> nat list" where
  "spec_words (lo # hi # rest) = (unat lo + 256 * unat hi) # spec_words rest"
| "spec_words [b] = [unat b]"
| "spec_words [] = []"

function spec_fold :: "nat \<Rightarrow> nat" where
  "spec_fold s = (if s div 65536 \<noteq> 0 then spec_fold (s mod 65536 + s div 65536) else s)"
  by pat_completeness auto
termination
proof (relation "measure (\<lambda>s. s)")
  show "wf (measure (\<lambda>s::nat. s))" by simp
next
  fix s :: nat
  assume nz: "s div 65536 \<noteq> 0"
  define q where "q = s div 65536"
  define r where "r = s mod 65536"
  have "s = 65536 * q + r" by (simp add: q_def r_def)
  moreover have "0 < q" using nz by (simp add: q_def)
  ultimately have "r + q < s" by linarith
  then show "(s mod 65536 + s div 65536, s) \<in> measure (\<lambda>s. s)"
    by (simp add: q_def r_def)
qed

declare spec_fold.simps [simp del]

definition spec_checksum :: "8 word list \<Rightarrow> nat" where
  "spec_checksum region = 65535 - spec_fold (sum_list (spec_words region) mod 2 ^ 32)"

text \<open>The region the checksum covers: the packet's memory with the checksum field zero.\<close>

definition checksum_region :: "8 word list \<Rightarrow> Packet \<Rightarrow> 8 word list" where
  "checksum_region beyond p =
     take (HEADER_SIZE + unat (data_len p)) (bytes_of (p\<lparr>checksum := 0\<rparr>) @ beyond)"

text \<open>
  The value \<open>calculate_checksum\<close> returns when its read stays in bounds (lemma
  \<open>calculate_checksum_in_bounds\<close>), named for use in statements.
\<close>

definition checksum_value :: "8 word list \<Rightarrow> Packet \<Rightarrow> 16 word" where
  "checksum_value beyond p = ucast (NOT (fold_carries (sum_words (checksum_region beyond p) 0)))"

section \<open>std::map\<close>

text \<open>
  A \<^verbatim>\<open>std::map<uint32_t, V>\<close> is kept as its list of entries in ascending key order, one
  entry per key: \<open>map_assign\<close> is \<^verbatim>\<open>m[k] = v\<close>, \<open>map_count\<close> is \<^verbatim>\<open>m.count(k)\<close>,
  \<open>map_erase\<close> is \<^verbatim>\<open>m.erase(k)\<close>, \<open>map_of m k\<close> reads \<^verbatim>\<open>m[k]\<close> or \<^verbatim>\<open>m.at(k)\<close> for a
  key that is present, and \<^verbatim>\<open>m.size()\<close> is the length of the list.
\<close>

fun map_assign :: "32 word \<Rightarrow> 'v \<Rightarrow> (32 word \<times> 'v) list \<Rightarrow> (32 word \<times> 'v) list" where
  "map_assign k v [] = [(k, v)]"
| "map_assign k v ((k', v') # m) =
     (if k = k' then (k, v) # m
      else if k < k' then (k, v) # (k', v') # m
      else (k', v') # map_assign k v m)"

definition map_count :: "32 word \<Rightarrow> (32 word \<times> 'v) list \<Rightarrow> nat" where
  "map_count k m = length (filter (\<lambda>kv. fst kv = k) m)"

definition map_erase :: "32 word \<Rightarrow> (32 word \<times> 'v) list \<Rightarrow> (32 word \<times> 'v) list" where
  "map_erase k m = filter (\<lambda>kv. fst kv \<noteq> k) m"

section \<open>Receiving a datagram\<close>

text \<open>
  \<^verbatim>\<open>recvfrom(socket, (char*)&packet, MAX_BUFFER_SIZE, ...)\<close> copies the datagram over the
  start of the buffer and leaves the rest of the buffer as it was. The buffer it is
  given is \<^verbatim>\<open>MAX_BUFFER_SIZE\<close> bytes long: the packet object followed by the
  \<^verbatim>\<open>MAX_BUFFER_SIZE - sizeof(Packet)\<close> bytes behind it, which the call may also write.
  The model keeps exactly this buffer: what it returns as the memory behind the packet
  ends where the buffer ends, so that a later read past the buffer is the error
  \<open>OutOfBounds\<close>. The result is the number of bytes received. A datagram longer than
  the buffer fills the buffer and is reported as an error (Winsock's \<^verbatim>\<open>WSAEMSGSIZE\<close>,
  result \<open>-1\<close>); a socket that cuts such a datagram to the buffer and returns the
  buffer's length behaves as the model does on the datagram already cut. Nothing
  proved below depends on which of the two happens.
\<close>

definition recvfrom ::
  "8 word list \<Rightarrow> Packet \<times> 8 word list \<Rightarrow> int \<times> Packet \<times> 8 word list" where
  "recvfrom dgram buf =
     (let mem = take MAX_BUFFER_SIZE (bytes_of (fst buf) @ snd buf);
          mem' = (if length dgram \<le> MAX_BUFFER_SIZE then dgram @ drop (length dgram) mem
                  else take MAX_BUFFER_SIZE dgram);
          recv_len = (if length dgram \<le> MAX_BUFFER_SIZE then int (length dgram) else - 1)
      in (recv_len, packet_of (take sizeof_Packet mem'), drop sizeof_Packet mem'))"

section \<open>The receiver (server.cpp)\<close>

record receiver =
  recv_packet :: Packet
  recv_beyond :: "8 word list"
  expected_seq_num :: "32 word"
  receive_buffer :: "(32 word \<times> Packet) list"
  output_file :: "8 word list"
  total_packets_received :: "32 word"
  out_of_order_packets :: "32 word"
  finished :: bool

text \<open>
  \<open>recv_beyond\<close> is the memory behind \<open>recv_packet\<close> that \<^verbatim>\<open>recvfrom\<close> may write and
  \<open>verify_checksum\<close> may read, four bytes in the program; the model takes it to be
  disjoint from the program's other variables.

  The state when the receive loop is entered: \<open>recv_packet\<close> holds whatever the
  handshake left in it.
\<close>

definition receiver_init :: "Packet \<Rightarrow> 8 word list \<Rightarrow> receiver" where
  "receiver_init pkt bey =
     \<lparr>recv_packet = pkt, recv_beyond = bey, expected_seq_num = 1, receive_buffer = [],
      output_file = [], total_packets_received = 0, out_of_order_packets = 0,
      finished = False\<rparr>"

text \<open>
  The loop that drains the buffer after an in-order packet:
  \<^verbatim>\<open>while (receive_buffer.count(expected_seq_num)) { ... erase; expected_seq_num++; }\<close>.
\<close>

function drain ::
  "32 word \<Rightarrow> (32 word \<times> Packet) list \<Rightarrow> 8 word list
    \<Rightarrow> 32 word \<times> (32 word \<times> Packet) list \<times> 8 word list" where
  "drain e buf written =
     (case map_of buf e of
        None \<Rightarrow> (e, buf, written)
      | Some buffered_packet \<Rightarrow>
          drain (e + 1) (map_erase e buf)
            (written @ take (unat (data_len buffered_packet)) (data buffered_packet)))"
  by pat_completeness auto
termination
proof (relation "measure (\<lambda>(e, buf, written). length buf)")
  show "wf (measure (\<lambda>(e :: 32 word, buf :: (32 word \<times> Packet) list, written :: 8 word list).
    length buf))" by simp
next
  fix e :: "32 word" and buf :: "(32 word \<times> Packet) list" and written :: "8 word list"
    and x2 :: Packet
  assume "map_of buf e = Some x2"
  then have "(e, x2) \<in> set buf" by (rule map_of_SomeD)
  then have "length (filter (\<lambda>kv. fst kv \<noteq> e) buf) < length buf"
    by (rule length_filter_less) simp
  then show "((e + 1, map_erase e buf, written @ take (unat (data_len x2)) (data x2)),
      (e, buf, written)) \<in> measure (\<lambda>(e, buf, written). length buf)"
    by (simp add: map_erase_def)
qed

declare drain.simps [simp del]

text \<open>
  The three delivery cases of the receive loop. \<^verbatim>\<open>output_file.write(p.data, p.data_len)\<close>
  writes \<open>data_len\<close> bytes starting at \<open>data\<close>. Every packet that reaches this point or
  the buffer has passed \<open>verify_checksum\<close> inside the receive buffer, so its \<open>data_len\<close>
  bytes lie inside the array (lemmas \<open>accepted_payload_in_array\<close> and
  \<open>run_receiver_payloads\<close>) and the write is \<open>take data_len data\<close>, here and in
  \<open>drain\<close>; a packet whose \<open>data_len\<close> reaches past the buffer never gets here, its
  verification is the error \<open>OutOfBounds\<close>.
\<close>

definition deliver :: "Packet \<Rightarrow> receiver \<Rightarrow> receiver" where
  "deliver p r =
     (if seq_num p = expected_seq_num r then
        (case drain (expected_seq_num r + 1) (receive_buffer r)
                (output_file r @ take (unat (data_len p)) (data p)) of
           (e, buf, written) \<Rightarrow>
             r\<lparr>expected_seq_num := e, receive_buffer := buf, output_file := written\<rparr>)
      else if seq_num p > expected_seq_num r then
        r\<lparr>receive_buffer := map_assign (seq_num p) p (receive_buffer r),
          out_of_order_packets := out_of_order_packets r + 1\<rparr>
      else r)"

text \<open>
  One iteration of \<^verbatim>\<open>while (true)\<close>: receive, verify, handle FIN or a data packet. The
  second component is the list of datagrams handed to \<^verbatim>\<open>sendto\<close>, each of \<^verbatim>\<open>HEADER_SIZE\<close>
  bytes.
\<close>

definition receiver_step ::
  "8 word list \<Rightarrow> receiver \<Rightarrow> error + (receiver \<times> 8 word list list)" where
  "receiver_step dgram r =
     (case recvfrom dgram (recv_packet r, recv_beyond r) of
        (recv_len, pkt, bey) \<Rightarrow>
          let r1 = r\<lparr>recv_packet := pkt, recv_beyond := bey\<rparr> in
          if recv_len \<le> 0 then Inr (r1, [])
          else
            (case verify_checksum bey pkt of
               Inl e \<Rightarrow> Inl e
             | Inr (ok, pkt') \<Rightarrow>
                 let r2 = r1\<lparr>recv_packet := pkt'\<rparr> in
                 if \<not> ok then Inr (r2, [])
                 else if flags pkt' AND FIN \<noteq> 0 then
                   (case assign_checksum []
                           (zero_packet\<lparr>flags := ACK OR FIN, ack_num := seq_num pkt' + 1\<rparr>) of
                      Inl e \<Rightarrow> Inl e
                    | Inr send_packet \<Rightarrow>
                        Inr (r2\<lparr>finished := True\<rparr>, [take HEADER_SIZE (bytes_of send_packet)]))
                 else
                   let r3 = deliver pkt'
                         (r2\<lparr>total_packets_received := total_packets_received r2 + 1\<rparr>)
                   in (case assign_checksum []
                              (zero_packet\<lparr>flags := ACK, ack_num := expected_seq_num r3 - 1\<rparr>) of
                         Inl e \<Rightarrow> Inl e
                       | Inr send_packet \<Rightarrow>
                           Inr (r3, [take HEADER_SIZE (bytes_of send_packet)]))))"

text \<open>The receive loop on a sequence of arriving datagrams; it ends at \<^verbatim>\<open>break\<close>.\<close>

fun run_receiver ::
  "8 word list list \<Rightarrow> receiver \<Rightarrow> error + (receiver \<times> 8 word list list)" where
  "run_receiver [] r = Inr (r, [])"
| "run_receiver (d # ds) r =
     (if finished r then Inr (r, [])
      else
        (case receiver_step d r of
           Inl e \<Rightarrow> Inl e
         | Inr (r', out) \<Rightarrow>
             (case run_receiver ds r' of
                Inl e \<Rightarrow> Inl e
              | Inr (r'', out') \<Rightarrow> Inr (r'', out @ out'))))"

section \<open>The sender (client.cpp)\<close>

datatype CongestionState = SLOW_START | CONGESTION_AVOIDANCE | FAST_RECOVERY

text \<open>Time points of \<^verbatim>\<open>steady_clock\<close> are counted in milliseconds.\<close>

record PacketState =
  packet :: Packet
  send_time :: int
  acked :: bool

text \<open>
  The state shared by the main thread and the ACK thread, all of it guarded by
  \<^verbatim>\<open>window_mutex\<close>, together with the main thread's cursor \<open>bytes_sent_total\<close> and the
  datagrams handed to \<^verbatim>\<open>sendto\<close> so far. \<open>cwnd\<close> is a \<^verbatim>\<open>double\<close> in the source; its
  values are rationals here. \<open>ssthresh\<close> is a \<^verbatim>\<open>uint32_t\<close> and \<open>duplicate_ack_count\<close> an
  \<^verbatim>\<open>int\<close>; both are taken without a width, which lemma \<open>controller_range\<close> justifies for
  runs of fewer than 700 million events.
\<close>

record sender =
  send_window :: "(32 word \<times> PacketState) list"
  send_base :: "32 word"
  next_seq_num :: "32 word"
  retransmit_seq_num :: "32 word"
  cwnd :: rat
  ssthresh :: nat
  state :: CongestionState
  duplicate_ack_count :: int
  total_packets_sent :: "32 word"
  total_retransmissions :: "32 word"
  total_acks_received :: "32 word"
  bytes_sent_total :: nat
  sent :: "8 word list list"

definition sender_init :: sender where
  "sender_init =
     \<lparr>send_window = [], send_base = 1, next_seq_num = 1, retransmit_seq_num = 0,
      cwnd = 1, ssthresh = 16, state = SLOW_START, duplicate_ack_count = 0,
      total_packets_sent = 0, total_retransmissions = 0, total_acks_received = 0,
      bytes_sent_total = 0, sent = []\<rparr>"

text \<open>
  Arithmetic on \<^verbatim>\<open>double\<close> is exact arithmetic followed by rounding to a representable
  value. The rounding is a parameter \<open>rnd\<close> of the controller; what is assumed of it
  is collected in \<open>rounding\<close>: it is monotone and leaves 0 and 1 as they are, as
  rounding to nearest does. \<open>exact\<close> is the rounding that changes nothing; it is the
  right one wherever every value that occurs is representable.
\<close>

definition rounding :: "(rat \<Rightarrow> rat) \<Rightarrow> bool" where
  "rounding rnd \<longleftrightarrow> (\<forall>x y. x \<le> y \<longrightarrow> rnd x \<le> rnd y) \<and> rnd 0 = 0 \<and> rnd 1 = 1"

definition exact :: "rat \<Rightarrow> rat" where
  "exact x = x"

text \<open>The conversion of a non-negative \<^verbatim>\<open>double\<close> to \<^verbatim>\<open>uint32_t\<close> drops the fraction.\<close>

definition double_to_uint32 :: "rat \<Rightarrow> nat" where
  "double_to_uint32 x = nat \<lfloor>x\<rfloor>"

text \<open>
  The body of \<^verbatim>\<open>receive_acks\<close> under the lock, for a packet that passed
  \<^verbatim>\<open>verify_checksum\<close> and carries the ACK flag; \<open>acked_num\<close> is its \<^verbatim>\<open>ack_num\<close>.
\<close>

definition on_ack :: "(rat \<Rightarrow> rat) \<Rightarrow> 32 word \<Rightarrow> sender \<Rightarrow> sender" where
  "on_ack rnd acked_num s0 =
     (let s = s0\<lparr>total_acks_received := total_acks_received s0 + 1\<rparr> in
      if acked_num \<ge> send_base s then
        let s1 = s\<lparr>duplicate_ack_count := 0, send_base := acked_num + 1,
                   send_window := filter (\<lambda>kv. \<not> fst kv \<le> acked_num) (send_window s)\<rparr>
        in if state s1 = FAST_RECOVERY then
             s1\<lparr>state := CONGESTION_AVOIDANCE, cwnd := of_nat (ssthresh s1)\<rparr>
           else if state s1 = SLOW_START then
             let s2 = s1\<lparr>cwnd := rnd (cwnd s1 + 1)\<rparr>
             in if cwnd s2 \<ge> of_nat (ssthresh s2) then s2\<lparr>state := CONGESTION_AVOIDANCE\<rparr>
                else s2
           else if state s1 = CONGESTION_AVOIDANCE then
             s1\<lparr>cwnd := rnd (cwnd s1 + rnd (1 / cwnd s1))\<rparr>
           else s1
      else
        let s1 = s\<lparr>duplicate_ack_count := duplicate_ack_count s + 1\<rparr>
        in if state s1 = FAST_RECOVERY then s1\<lparr>cwnd := rnd (cwnd s1 + 1)\<rparr>
           else if duplicate_ack_count s1 = 3 then
             let s2 = s1\<lparr>state := FAST_RECOVERY,
                        ssthresh := double_to_uint32 (max 2 (rnd (cwnd s1 / 2)))\<rparr>
             in s2\<lparr>cwnd := of_nat (ssthresh s2 + 3), retransmit_seq_num := send_base s2\<rparr>
           else s1)"

text \<open>The congestion reaction to one retransmission timeout in the main loop.\<close>

definition on_timeout :: "(rat \<Rightarrow> rat) \<Rightarrow> sender \<Rightarrow> sender" where
  "on_timeout rnd s =
     (let s1 = s\<lparr>state := SLOW_START\<rparr>;
          s2 = s1\<lparr>ssthresh := double_to_uint32 (max 2 (rnd (cwnd s1 / 2)))\<rparr>
      in s2\<lparr>cwnd := 1, duplicate_ack_count := 0\<rparr>)"

text \<open>
  Retransmitting one window entry: recompute the checksum, send
  \<^verbatim>\<open>HEADER_SIZE + data_len\<close> bytes, refresh the time stamp, count.
\<close>

definition retransmit ::
  "8 word list \<Rightarrow> int \<Rightarrow> PacketState \<Rightarrow> sender \<Rightarrow> error + (PacketState \<times> sender)" where
  "retransmit beyond now ps s =
     (case assign_checksum beyond (packet ps) of
        Inl e \<Rightarrow> Inl e
      | Inr p \<Rightarrow>
          Inr (ps\<lparr>packet := p, send_time := now\<rparr>,
               s\<lparr>sent := sent s @ [take (HEADER_SIZE + unat (data_len p)) (bytes_of p @ beyond)],
                 total_retransmissions := total_retransmissions s + 1\<rparr>))"

text \<open>The timeout scan \<^verbatim>\<open>for (auto& pair : send_window)\<close>, in key order.\<close>

fun timeout_scan ::
  "(rat \<Rightarrow> rat) \<Rightarrow> 8 word list \<Rightarrow> int \<Rightarrow> (32 word \<times> PacketState) list \<Rightarrow> sender
    \<Rightarrow> error + ((32 word \<times> PacketState) list \<times> sender)" where
  "timeout_scan rnd beyond now [] s = Inr ([], s)"
| "timeout_scan rnd beyond now ((k, ps) # rest) s =
     (if now - send_time ps > PACKET_TIMEOUT_MS Client_common_h then
        (case retransmit beyond now ps s of
           Inl e \<Rightarrow> Inl e
         | Inr (ps', s') \<Rightarrow>
             (case timeout_scan rnd beyond now rest (on_timeout rnd s') of
                Inl e \<Rightarrow> Inl e
              | Inr (rest', s'') \<Rightarrow> Inr ((k, ps') # rest', s'')))
      else
        (case timeout_scan rnd beyond now rest s of
           Inl e \<Rightarrow> Inl e
         | Inr (rest', s') \<Rightarrow> Inr ((k, ps) # rest', s')))"

text \<open>
  Step 2 of the main loop, the admission of new data:
  \<^verbatim>\<open>while (send_window.size() < min((double)FLOW_CONTROL_WINDOW_SIZE, cwnd)
         && bytes_sent_total < file_buffer.size()) { ... }\<close>.
\<close>

definition new_packet :: "8 word list \<Rightarrow> sender \<Rightarrow> Packet" where
  "new_packet file_buffer s =
     (let data_to_send = min MAX_DATA_SIZE (length file_buffer - bytes_sent_total s)
      in zero_packet\<lparr>seq_num := next_seq_num s, data_len := of_nat data_to_send,
           data := take data_to_send (drop (bytes_sent_total s) file_buffer)
                     @ drop data_to_send (data zero_packet)\<rparr>)"

function admit_new_data :: "8 word list \<Rightarrow> 8 word list \<Rightarrow> int \<Rightarrow> sender \<Rightarrow> error + sender" where
  "admit_new_data beyond file_buffer now s =
     (if of_nat (length (send_window s))
           < min (of_int (FLOW_CONTROL_WINDOW_SIZE Client_common_h)) (cwnd s)
         \<and> bytes_sent_total s < length file_buffer
      then
        (case assign_checksum beyond (new_packet file_buffer s) of
           Inl e \<Rightarrow> Inl e
         | Inr p \<Rightarrow>
             admit_new_data beyond file_buffer now
               (s\<lparr>sent := sent s
                      @ [take (HEADER_SIZE + min MAX_DATA_SIZE (length file_buffer - bytes_sent_total s))
                           (bytes_of p @ beyond)],
                  total_packets_sent := total_packets_sent s + 1,
                  send_window := map_assign (next_seq_num s)
                      \<lparr>packet = p, send_time = now, acked = False\<rparr> (send_window s),
                  next_seq_num := next_seq_num s + 1,
                  bytes_sent_total := bytes_sent_total s
                      + min MAX_DATA_SIZE (length file_buffer - bytes_sent_total s)\<rparr>))
      else Inr s)"
  by pat_completeness auto
termination
proof (relation "measure (\<lambda>(beyond, file_buffer, now, s). length file_buffer - bytes_sent_total s)")
  show "wf (measure (\<lambda>(beyond :: 8 word list, file_buffer :: 8 word list, now :: int, s :: sender).
    length file_buffer - bytes_sent_total s))" by simp
next
  fix beyond file_buffer :: "8 word list" and now :: int and s :: sender and p :: Packet
  assume "of_nat (length (send_window s))
           < min (of_int (FLOW_CONTROL_WINDOW_SIZE Client_common_h)) (cwnd s)
         \<and> bytes_sent_total s < length file_buffer"
  then have "bytes_sent_total s < length file_buffer" by simp
  then show "((beyond, file_buffer, now,
       s\<lparr>sent := sent s
            @ [take (HEADER_SIZE + min MAX_DATA_SIZE (length file_buffer - bytes_sent_total s))
                 (bytes_of p @ beyond)],
         total_packets_sent := total_packets_sent s + 1,
         send_window := map_assign (next_seq_num s)
            \<lparr>packet = p, send_time = now, acked = False\<rparr> (send_window s),
         next_seq_num := next_seq_num s + 1,
         bytes_sent_total := bytes_sent_total s
            + min MAX_DATA_SIZE (length file_buffer - bytes_sent_total s)\<rparr>),
      (beyond, file_buffer, now, s))
    \<in> measure (\<lambda>(beyond, file_buffer, now, s). length file_buffer - bytes_sent_total s)"
    by (simp add: MAX_DATA_SIZE_def MAX_BUFFER_SIZE_def HEADER_SIZE_def)
qed

declare admit_new_data.simps [simp del]

text \<open>
  One iteration of the main loop under the lock: take the fast-retransmit signal and
  either retransmit its target or scan for timeouts, then admit new data. \<open>now\<close> is the
  clock reading of the iteration; the source reads the clock again for every window
  entry and every packet it sends within the iteration, the model uses the one
  reading for all of them. \<open>beyond\<close> stands for the bytes behind whichever packet object
  \<open>calculate_checksum\<close> and \<^verbatim>\<open>sendto\<close> read.
\<close>

definition main_step :: "(rat \<Rightarrow> rat) \<Rightarrow> 8 word list \<Rightarrow> 8 word list \<Rightarrow> int \<Rightarrow> sender \<Rightarrow> error + sender" where
  "main_step rnd beyond file_buffer now s =
     (let fast_retransmit_target = retransmit_seq_num s;
          s1 = s\<lparr>retransmit_seq_num := 0\<rparr>
      in case
           (if fast_retransmit_target > 0 \<and> map_count fast_retransmit_target (send_window s1) > 0
            then
              (case map_of (send_window s1) fast_retransmit_target of
                 None \<Rightarrow> Inr s1
               | Some ps \<Rightarrow>
                   (case retransmit beyond now ps s1 of
                      Inl e \<Rightarrow> Inl e
                    | Inr (ps', s2) \<Rightarrow>
                        Inr (s2\<lparr>send_window :=
                               map_assign fast_retransmit_target ps' (send_window s2)\<rparr>)))
            else
              (case timeout_scan rnd beyond now (send_window s1) s1 of
                 Inl e \<Rightarrow> Inl e
               | Inr (w, s2) \<Rightarrow> Inr (s2\<lparr>send_window := w\<rparr>)))
         of Inl e \<Rightarrow> Inl e
          | Inr s3 \<Rightarrow> admit_new_data beyond file_buffer now s3)"

text \<open>
  The two threads interleave at the granularity of the lock: a run of the sender is a
  sequence of main-loop iterations and of ACKs taken by the ACK thread. The main loop
  iterates \<^verbatim>\<open>while (bytes_sent_total < file_buffer.size() || !send_window.empty())\<close>; the
  run ends when it does.
\<close>

datatype sender_event = MainStep int | AckArrives "32 word"

fun run_sender :: "(rat \<Rightarrow> rat) \<Rightarrow> 8 word list \<Rightarrow> 8 word list \<Rightarrow> sender_event list \<Rightarrow> sender \<Rightarrow> error + sender" where
  "run_sender rnd beyond file_buffer [] s = Inr s"
| "run_sender rnd beyond file_buffer (MainStep now # evs) s =
     (if bytes_sent_total s < length file_buffer \<or> send_window s \<noteq> [] then
        (case main_step rnd beyond file_buffer now s of
           Inl e \<Rightarrow> Inl e
         | Inr s' \<Rightarrow> run_sender rnd beyond file_buffer evs s')
      else Inr s)"
| "run_sender rnd beyond file_buffer (AckArrives n # evs) s =
     run_sender rnd beyond file_buffer evs (on_ack rnd n s)"

text \<open>The events the congestion controller reacts to.\<close>

datatype controller_event = Ack "32 word" | Timeout

fun controller_step :: "(rat \<Rightarrow> rat) \<Rightarrow> controller_event \<Rightarrow> sender \<Rightarrow> sender" where
  "controller_step rnd (Ack n) s = on_ack rnd n s"
| "controller_step rnd Timeout s = on_timeout rnd s"

fun controller_run :: "(rat \<Rightarrow> rat) \<Rightarrow> controller_event list \<Rightarrow> sender \<Rightarrow> sender" where
  "controller_run rnd [] s = s"
| "controller_run rnd (ev # evs) s = controller_run rnd evs (controller_step rnd ev s)"

text \<open>
  The range in which the controller's variables stay for \<open>n\<close> events: it keeps
  \<open>ssthresh\<close> and \<open>ssthresh + 3\<close> inside \<^verbatim>\<open>uint32_t\<close> and \<open>duplicate_ack_count\<close> inside
  \<^verbatim>\<open>int\<close> as long as \<open>n\<close> is below 700 million.
\<close>

definition in_range :: "nat \<Rightarrow> sender \<Rightarrow> bool" where
  "in_range n s \<longleftrightarrow> 1 \<le> cwnd s \<and> cwnd s \<le> of_nat (19 + 3 * n)
     \<and> 2 \<le> ssthresh s \<and> ssthresh s \<le> 16 + 3 * n
     \<and> 0 \<le> duplicate_ack_count s \<and> duplicate_ack_count s \<le> int n"

section \<open>Connection establishment\<close>

text \<open>
  The receiver's side of the handshake (server.cpp): wait for a datagram; if it carries
  SYN, answer SYN-ACK and wait for a second datagram. \<open>buf\<close> is the uninitialised
  \<open>recv_packet\<close> with the bytes behind it. The result is the buffer afterwards and the
  datagrams sent.
\<close>

definition server_handshake ::
  "8 word list \<Rightarrow> 8 word list \<Rightarrow> Packet \<times> 8 word list
    \<Rightarrow> error + ((Packet \<times> 8 word list) \<times> 8 word list list)" where
  "server_handshake dgram1 dgram2 buf =
     (case recvfrom dgram1 buf of
        (len1, pkt, bey) \<Rightarrow>
          if flags pkt AND SYN \<noteq> 0 then
            (case assign_checksum []
                    (zero_packet\<lparr>flags := SYN OR ACK, ack_num := seq_num pkt + 1\<rparr>) of
               Inl e \<Rightarrow> Inl e
             | Inr send_packet \<Rightarrow>
                 (case recvfrom dgram2 (pkt, bey) of
                    (len2, pkt2, bey2) \<Rightarrow>
                      Inr ((pkt2, bey2), [take HEADER_SIZE (bytes_of send_packet)])))
          else Inr ((pkt, bey), []))"

text \<open>
  The sender's side (client.cpp): send SYN, wait for a datagram; if its flags are
  exactly SYN|ACK, send the final ACK. \<open>beyond\<close> is what lies behind \<open>recv_packet\<close>.
\<close>

definition client_handshake ::
  "8 word list \<Rightarrow> 8 word list \<Rightarrow> error + ((Packet \<times> 8 word list) \<times> 8 word list list)" where
  "client_handshake dgram beyond =
     (case assign_checksum [] (zero_packet\<lparr>flags := SYN, seq_num := 0\<rparr>) of
        Inl e \<Rightarrow> Inl e
      | Inr syn_packet \<Rightarrow>
          (case recvfrom dgram (zero_packet, beyond) of
             (len, pkt, bey) \<Rightarrow>
               if flags pkt = (SYN OR ACK) then
                 (case assign_checksum []
                         (zero_packet\<lparr>flags := ACK, ack_num := seq_num pkt + 1\<rparr>) of
                    Inl e \<Rightarrow> Inl e
                  | Inr ack_packet \<Rightarrow>
                      Inr ((pkt, bey), [take HEADER_SIZE (bytes_of syn_packet),
                                       take HEADER_SIZE (bytes_of ack_packet)]))
               else Inr ((pkt, bey), [take HEADER_SIZE (bytes_of syn_packet)])))"

section \<open>Observations used in the worked examples\<close>

definition observe_receiver ::
  "receiver \<times> 8 word list list \<Rightarrow> 32 word \<times> 32 word list \<times> 8 word list \<times> 8 word list list" where
  "observe_receiver x =
     (expected_seq_num (fst x), map fst (receive_buffer (fst x)), output_file (fst x), snd x)"

definition observe_sender :: "sender \<Rightarrow> 32 word list \<times> rat \<times> nat \<times> CongestionState" where
  "observe_sender s = (map fst (send_window s), cwnd s, ssthresh s, state s)"

text \<open>
  Datagrams as the sender produces them: a data packet with sequence number 1 and the
  payload \<open>A\<close>, and one with sequence number 3 and the payload \<open>C\<close>. Each is
  \<^verbatim>\<open>HEADER_SIZE + data_len\<close> = 21 bytes long.
\<close>

definition datagram_seq1 :: "8 word list" where
  "datagram_seq1 =
     [1, 0, 0, 0,  0, 0, 0, 0,  0, 0,  0, 0,  1, 0,  0xBC, 0xFF,  0x41, 0, 0, 0, 0]"

definition datagram_seq3 :: "8 word list" where
  "datagram_seq3 =
     [3, 0, 0, 0,  0, 0, 0, 0,  0, 0,  0, 0,  1, 0,  0xB8, 0xFF,  0x43, 0, 0, 0, 0]"

text \<open>
  A datagram of 20 bytes whose \<open>data_len\<close> field is \<open>0xFFFF\<close>: the region its checksum
  covers is 65555 bytes long.
\<close>

definition datagram_len_ffff :: "8 word list" where
  "datagram_len_ffff =
     [1, 0, 0, 0,  0, 0, 0, 0,  0, 0,  0, 0,  0xFF, 0xFF,  0, 0,  0, 0, 0, 0]"

text \<open>The receiver as it enters the receive loop with a zeroed buffer.\<close>

definition receiver_start :: receiver where
  "receiver_start = receiver_init zero_packet [0, 0, 0, 0]"

text \<open>
  A SYN and a SYN-ACK damaged in transit: the first byte of \<open>seq_num\<close> arrives as
  \<open>0x10\<close> instead of 0, the checksum field still holds the value computed by the peer
  (\<open>0xFFFE\<close> for the SYN, \<open>0xFFFB\<close> for the SYN-ACK with \<open>ack_num = 1\<close>).
\<close>

definition damaged_syn :: "8 word list" where
  "damaged_syn =
     [0x10, 0, 0, 0,  0, 0, 0, 0,  1, 0,  0, 0,  0, 0,  0xFE, 0xFF,  0, 0, 0, 0]"

definition damaged_syn_ack :: "8 word list" where
  "damaged_syn_ack =
     [0x10, 0, 0, 0,  1, 0, 0, 0,  3, 0,  0, 0,  0, 0,  0xFB, 0xFF,  0, 0, 0, 0]"

text \<open>Whether the packet that \<^verbatim>\<open>recvfrom\<close> leaves in a zeroed buffer verifies.\<close>

definition verifies_on_arrival :: "8 word list \<Rightarrow> error + bool" where
  "verifies_on_arrival dgram =
     (case recvfrom dgram (zero_packet, [0, 0, 0, 0]) of
        (len, pkt, bey) \<Rightarrow> map_sum id fst (verify_checksum bey pkt))"

section \<open>Words as numbers\<close>

lemma unat8_lt: "unat (b :: 8 word) < 256"
  using unsigned_less [of b, where 'a = nat] by simp

lemma unat16_lt: "unat (b :: 16 word) < 65536"
  using unsigned_less [of b, where 'a = nat] by simp

lemma unat32_lt: "unat (b :: 32 word) < 2 ^ 32"
  using unsigned_less [of b, where 'a = nat] by simp

lemma unat_ucast_8_16: "unat (ucast (b :: 8 word) :: 16 word) = unat b"
  using unat8_lt [of b] by (simp add: unsigned_ucast_eq take_bit_eq_mod)

lemma unat_ucast_8_32: "unat (ucast (b :: 8 word) :: 32 word) = unat b"
  using unat8_lt [of b] by (simp add: unsigned_ucast_eq take_bit_eq_mod)

lemma unat_ucast_16_32: "unat (ucast (b :: 16 word) :: 32 word) = unat b"
  using unat16_lt [of b] by (simp add: unsigned_ucast_eq take_bit_eq_mod)

lemma rd16_add: "rd16 lo hi = ucast lo + push_bit 8 (ucast hi)"
  unfolding rd16_def
  by (rule disjunctive_add [symmetric])
    (auto simp add: bit_ucast_iff bit_push_bit_iff dest: bit_imp_le_length)

lemma unat_rd16: "unat (rd16 lo hi) = unat lo + 256 * unat hi"
proof -
  have "unat (push_bit 8 (ucast hi :: 16 word)) = 256 * unat hi"
    using unat8_lt [of hi] by (simp add: push_bit_eq_mult unat_word_ariths unat_ucast_8_16)
  then show ?thesis
    using unat8_lt [of lo] unat8_lt [of hi]
    by (simp add: rd16_add unat_word_ariths unat_ucast_8_16)
qed

lemma unat_minus_one_16: "unat (- 1 :: 16 word) = 65535"
  by (simp add: unsigned_minus_1_eq_mask mask_eq_exp_minus_1)

lemma unat_complement_16:
  assumes "unat (a :: 32 word) < 65536"
  shows "unat (ucast (NOT a) :: 16 word) = 65535 - unat a"
proof -
  define b :: "16 word" where "b = ucast a"
  have "(ucast (NOT a) :: 16 word) = NOT b"
    unfolding b_def by (rule bit_word_eqI) (auto simp add: bit_ucast_iff bit_not_iff)
  also have "\<dots> = (- 1) - b" by (simp add: not_eq_complement)
  finally have e: "(ucast (NOT a) :: 16 word) = (- 1) - b" .
  have u: "unat b = unat a"
    unfolding b_def using assms by (simp add: unsigned_ucast_eq take_bit_eq_mod)
  have "unat ((- 1) - b) = unat (- 1 :: 16 word) - unat b"
    by (rule unat_sub) simp
  then show ?thesis by (simp add: e u unat_minus_one_16)
qed

lemma unat_and_FFFF: "unat ((s :: 32 word) AND 0xFFFF) = unat s mod 65536"
proof -
  have m: "(0xFFFF :: 32 word) = mask 16" by (simp add: mask_eq_exp_minus_1)
  show ?thesis unfolding m by (simp flip: take_bit_eq_mask add: take_bit_eq_mod unat_mod)
qed

lemma unat_drop16: "unat (drop_bit 16 (s :: 32 word)) = unat s div 65536"
  by (simp add: drop_bit_eq_div unat_div)

section \<open>The checksum loops compute the specification's sums\<close>

lemma unat_sum_words:
  "unat (sum_words bs acc) = (unat acc + sum_list (spec_words bs)) mod 2 ^ 32"
proof (induction bs acc rule: sum_words.induct)
  case (1 lo hi rest acc)
  have "unat (acc + ucast (rd16 lo hi)) = (unat acc + (unat lo + 256 * unat hi)) mod 2 ^ 32"
    by (simp add: unat_word_ariths unat_ucast_16_32 unat_rd16)
  then show ?case using 1 by (simp add: mod_add_left_eq add.assoc)
next
  case (2 b acc)
  then show ?case by (simp add: unat_word_ariths unat_ucast_8_32)
next
  case (3 acc)
  then show ?case using unat32_lt [of acc] by simp
qed

lemma unat_fold_carries: "unat (fold_carries acc) = spec_fold (unat acc)"
proof (induction acc rule: fold_carries.induct)
  case (1 acc)
  show ?case
  proof (cases "drop_bit 16 acc = 0")
    case True
    then have "unat acc div 65536 = 0" using unat_drop16 [of acc] by simp
    then show ?thesis using True by (subst fold_carries.simps, subst spec_fold.simps) simp
  next
    case False
    then have "unat (drop_bit 16 acc) \<noteq> 0" by (simp add: unat_eq_0)
    then have nz: "unat acc div 65536 \<noteq> 0" by (simp add: unat_drop16)
    have "unat acc mod 65536 + unat acc div 65536 < 2 ^ 32"
      using unat32_lt [of acc] by (simp add: less_mult_imp_div_less add.commute)
    then have "unat ((acc AND 0xFFFF) + drop_bit 16 acc)
        = unat acc mod 65536 + unat acc div 65536"
      by (simp add: unat_word_ariths unat_and_FFFF unat_drop16)
    then show ?thesis using False nz 1
      by (subst fold_carries.simps, subst spec_fold.simps) simp
  qed
qed

lemma spec_fold_lt: "spec_fold n < 65536"
proof (induction n rule: spec_fold.induct)
  case (1 s)
  show ?case
  proof (cases "s div 65536 = 0")
    case True
    then show ?thesis by (subst spec_fold.simps) (simp add: div_eq_0_iff)
  next
    case False
    then show ?thesis using 1 by (subst spec_fold.simps) simp
  qed
qed

lemma sum_words_zeros: "sum_words (replicate n 0) acc = acc"
proof (induction n arbitrary: acc rule: less_induct)
  case (less n)
  show ?case
  proof (cases n)
    case 0
    then show ?thesis by simp
  next
    case (Suc m)
    show ?thesis
    proof (cases m)
      case 0
      with Suc show ?thesis by simp
    next
      case (Suc k)
      with \<open>n = Suc m\<close> less [of k] show ?thesis by (simp add: rd16_def)
    qed
  qed
qed

section \<open>What calculate\_checksum returns and leaves behind\<close>

lemma length_bytes_of: "length (bytes_of p) = 16 + length (data p)"
  by (simp add: bytes_of_def le32_def le16_def)

lemma checksum_region_ignores_checksum:
  "checksum_region beyond (P\<lparr>checksum := c\<rparr>) = checksum_region beyond P"
  by (simp add: checksum_region_def)

lemma checksum_value_ignores_checksum:
  "checksum_value beyond (P\<lparr>checksum := c\<rparr>) = checksum_value beyond P"
  by (simp add: checksum_value_def checksum_region_ignores_checksum)

lemma calculate_checksum_in_bounds:
  assumes "HEADER_SIZE + unat (data_len P) \<le> length (bytes_of P @ beyond)"
  shows "calculate_checksum beyond P = Inr (checksum_value beyond P, P)"
proof -
  have "length (bytes_of (P\<lparr>checksum := 0\<rparr>)) = length (bytes_of P)"
    by (simp add: length_bytes_of)
  then have "\<not> length (bytes_of (P\<lparr>checksum := 0\<rparr>) @ beyond) < HEADER_SIZE + unat (data_len P)"
    using assms by simp
  then show ?thesis
    by (simp add: calculate_checksum_def checksum_value_def checksum_region_def Let_def)
qed

lemma calculate_checksum_out_of_bounds:
  assumes "\<not> HEADER_SIZE + unat (data_len P) \<le> length (bytes_of P @ beyond)"
  shows "calculate_checksum beyond P = Inl OutOfBounds"
proof -
  have "length (bytes_of (P\<lparr>checksum := 0\<rparr>)) = length (bytes_of P)"
    by (simp add: length_bytes_of)
  then have "length (bytes_of (P\<lparr>checksum := 0\<rparr>) @ beyond) < HEADER_SIZE + unat (data_len P)"
    using assms by simp
  then show ?thesis
    by (simp add: calculate_checksum_def Let_def)
qed

lemma verify_checksum_in_bounds:
  assumes "HEADER_SIZE + unat (data_len P) \<le> length (bytes_of P @ beyond)"
  shows "verify_checksum beyond P = Inr (checksum_value beyond P = checksum P, P)"
  using assms by (simp add: verify_checksum_def calculate_checksum_in_bounds)

lemma verify_checksum_out_of_bounds:
  assumes "\<not> HEADER_SIZE + unat (data_len P) \<le> length (bytes_of P @ beyond)"
  shows "verify_checksum beyond P = Inl OutOfBounds"
  using assms by (simp add: verify_checksum_def calculate_checksum_out_of_bounds)

lemma assign_checksum_in_bounds:
  assumes "HEADER_SIZE + unat (data_len P) \<le> length (bytes_of P @ beyond)"
  shows "assign_checksum beyond P = Inr (P\<lparr>checksum := checksum_value beyond P\<rparr>)"
  using assms by (simp add: assign_checksum_def calculate_checksum_in_bounds)

lemma verify_checksum_returns_packet:
  "verify_checksum beyond P = Inr (ok, P') \<Longrightarrow> P' = P"
  by (cases "HEADER_SIZE + unat (data_len P) \<le> length (bytes_of P @ beyond)")
    (simp_all add: verify_checksum_in_bounds verify_checksum_out_of_bounds)

lemma verify_assigned_checksum:
  assumes "HEADER_SIZE + unat (data_len P) \<le> length (bytes_of P @ beyond)"
  shows "verify_checksum beyond (P\<lparr>checksum := checksum_value beyond P\<rparr>)
    = Inr (True, P\<lparr>checksum := checksum_value beyond P\<rparr>)"
proof -
  have "length (bytes_of (P\<lparr>checksum := checksum_value beyond P\<rparr>)) = length (bytes_of P)"
    by (simp add: length_bytes_of)
  then show ?thesis
    using assms
      verify_checksum_in_bounds [of "P\<lparr>checksum := checksum_value beyond P\<rparr>" beyond]
    by (simp add: checksum_value_ignores_checksum)
qed

text \<open>A control packet, built from \<^verbatim>\<open>{ 0 }\<close> with \<open>data_len = 0\<close>, is always in bounds.\<close>

lemma control_packet_in_bounds:
  "HEADER_SIZE + unat (data_len (zero_packet\<lparr>flags := f, ack_num := a\<rparr>))
     \<le> length (bytes_of (zero_packet\<lparr>flags := f, ack_num := a\<rparr>) @ beyond)"
  by (simp add: length_bytes_of zero_packet_def MAX_DATA_SIZE_def MAX_BUFFER_SIZE_def
      HEADER_SIZE_def)

text \<open>
  Claim C10. For every packet \<open>P\<close> and every value \<open>c\<close> of its checksum field,
  \<open>calculate_checksum\<close> returns the same result whether the field holds \<open>c\<close> or zero,
  and the packet it leaves behind is the packet it was given, checksum field included.
  The premise says that the region read lies inside the memory the model knows.
\<close>

theorem calculate_checksum_frame:
  assumes "HEADER_SIZE + unat (data_len P) \<le> length (bytes_of P @ beyond)"
  shows "\<exists>r. calculate_checksum beyond (P\<lparr>checksum := c\<rparr>) = Inr (r, P\<lparr>checksum := c\<rparr>)
           \<and> calculate_checksum beyond (P\<lparr>checksum := 0\<rparr>) = Inr (r, P\<lparr>checksum := 0\<rparr>)"
proof -
  have len: "length (bytes_of (P\<lparr>checksum := x\<rparr>)) = length (bytes_of P)" for x
    by (simp add: length_bytes_of)
  have "calculate_checksum beyond (P\<lparr>checksum := x\<rparr>)
      = Inr (checksum_value beyond P, P\<lparr>checksum := x\<rparr>)" for x
    using assms calculate_checksum_in_bounds [of "P\<lparr>checksum := x\<rparr>" beyond]
    by (simp add: len checksum_value_ignores_checksum)
  then show ?thesis by blast
qed

theorem calculate_checksum_frame_witness:
  "HEADER_SIZE + unat (data_len (zero_packet\<lparr>flags := ACK, ack_num := 5\<rparr>))
      \<le> length (bytes_of (zero_packet\<lparr>flags := ACK, ack_num := 5\<rparr>) @ [])
   \<and> (\<exists>r. calculate_checksum [] (zero_packet\<lparr>flags := ACK, ack_num := 5, checksum := 7\<rparr>)
             = Inr (r, zero_packet\<lparr>flags := ACK, ack_num := 5, checksum := 7\<rparr>)
          \<and> calculate_checksum [] (zero_packet\<lparr>flags := ACK, ack_num := 5, checksum := 0\<rparr>)
             = Inr (r, zero_packet\<lparr>flags := ACK, ack_num := 5, checksum := 0\<rparr>))"
proof -
  have h: "HEADER_SIZE + unat (data_len (zero_packet\<lparr>flags := ACK, ack_num := 5\<rparr>))
      \<le> length (bytes_of (zero_packet\<lparr>flags := ACK, ack_num := 5\<rparr>) @ [])"
    by (rule control_packet_in_bounds)
  show ?thesis
    using h calculate_checksum_frame [OF h, of 7] by simp
qed

text \<open>
  Claim C5. \<open>calculate_checksum\<close> computes the specification's one's-complement checksum
  of the region of \<open>HEADER_SIZE + data_len\<close> bytes with the checksum field taken as zero,
  and a packet whose checksum field is set to that value passes \<open>verify_checksum\<close>.
\<close>

theorem calculate_checksum_spec_and_verify:
  assumes "HEADER_SIZE + unat (data_len P) \<le> length (bytes_of P @ beyond)"
  shows "\<exists>c. calculate_checksum beyond P = Inr (c, P)
           \<and> unat c = spec_checksum (checksum_region beyond P)
           \<and> verify_checksum beyond (P\<lparr>checksum := c\<rparr>) = Inr (True, P\<lparr>checksum := c\<rparr>)"
proof -
  define acc where "acc = fold_carries (sum_words (checksum_region beyond P) 0)"
  have c: "checksum_value beyond P = ucast (NOT acc)"
    by (simp add: checksum_value_def acc_def)
  have calc: "calculate_checksum beyond P = Inr (checksum_value beyond P, P)"
    using assms by (rule calculate_checksum_in_bounds)
  have folded: "unat acc = spec_fold (sum_list (spec_words (checksum_region beyond P)) mod 2 ^ 32)"
    by (simp add: acc_def unat_fold_carries unat_sum_words)
  then have "unat acc < 65536" by (simp add: spec_fold_lt)
  then have "unat (ucast (NOT acc) :: 16 word) = 65535 - unat acc"
    by (rule unat_complement_16)
  then have spec: "unat (checksum_value beyond P) = spec_checksum (checksum_region beyond P)"
    by (simp add: spec_checksum_def folded c)
  have "verify_checksum beyond (P\<lparr>checksum := checksum_value beyond P\<rparr>)
      = Inr (True, P\<lparr>checksum := checksum_value beyond P\<rparr>)"
    using assms by (rule verify_assigned_checksum)
  with calc spec show ?thesis by blast
qed

theorem calculate_checksum_spec_and_verify_witness:
  "HEADER_SIZE + unat (data_len (zero_packet\<lparr>flags := ACK, ack_num := 5\<rparr>))
      \<le> length (bytes_of (zero_packet\<lparr>flags := ACK, ack_num := 5\<rparr>) @ [])
   \<and> (\<exists>c. calculate_checksum [] (zero_packet\<lparr>flags := ACK, ack_num := 5\<rparr>)
             = Inr (c, zero_packet\<lparr>flags := ACK, ack_num := 5\<rparr>)
          \<and> unat c = spec_checksum (checksum_region [] (zero_packet\<lparr>flags := ACK, ack_num := 5\<rparr>))
          \<and> verify_checksum [] (zero_packet\<lparr>flags := ACK, ack_num := 5, checksum := c\<rparr>)
             = Inr (True, zero_packet\<lparr>flags := ACK, ack_num := 5, checksum := c\<rparr>))"
proof -
  have h: "HEADER_SIZE + unat (data_len (zero_packet\<lparr>flags := ACK, ack_num := 5\<rparr>))
      \<le> length (bytes_of (zero_packet\<lparr>flags := ACK, ack_num := 5\<rparr>) @ [])"
    by (rule control_packet_in_bounds)
  show ?thesis
    using h calculate_checksum_spec_and_verify [OF h] by simp
qed

section \<open>The receiver, case by case\<close>

lemma receiver_step_nothing_received:
  assumes "recvfrom dgram (recv_packet r, recv_beyond r) = (recv_len, pkt, bey)"
    and "recv_len \<le> 0"
  shows "receiver_step dgram r = Inr (r\<lparr>recv_beyond := bey, recv_packet := pkt\<rparr>, [])"
  using assms by (simp add: receiver_step_def)

lemma receiver_step_out_of_bounds:
  assumes "recvfrom dgram (recv_packet r, recv_beyond r) = (recv_len, pkt, bey)"
    and "0 < recv_len" and "verify_checksum bey pkt = Inl e"
  shows "receiver_step dgram r = Inl e"
  using assms by (simp add: receiver_step_def)

lemma receiver_step_corrupt:
  assumes "recvfrom dgram (recv_packet r, recv_beyond r) = (recv_len, pkt, bey)"
    and "0 < recv_len" and "verify_checksum bey pkt = Inr (False, pkt')"
  shows "receiver_step dgram r = Inr (r\<lparr>recv_beyond := bey, recv_packet := pkt\<rparr>, [])"
proof -
  have "pkt' = pkt" using assms(3) by (rule verify_checksum_returns_packet)
  then show ?thesis using assms by (simp add: receiver_step_def)
qed

lemma receiver_step_fin:
  assumes "recvfrom dgram (recv_packet r, recv_beyond r) = (recv_len, pkt, bey)"
    and "0 < recv_len" and "verify_checksum bey pkt = Inr (True, pkt')"
    and "flags pkt AND FIN \<noteq> 0"
  shows "receiver_step dgram r =
    Inr (r\<lparr>recv_beyond := bey, recv_packet := pkt, finished := True\<rparr>,
         [take HEADER_SIZE (bytes_of (zero_packet\<lparr>flags := ACK OR FIN, ack_num := seq_num pkt + 1,
            checksum := checksum_value []
              (zero_packet\<lparr>flags := ACK OR FIN, ack_num := seq_num pkt + 1\<rparr>)\<rparr>))])"
proof -
  have "pkt' = pkt" using assms(3) by (rule verify_checksum_returns_packet)
  then show ?thesis
    using assms
    by (simp add: receiver_step_def assign_checksum_in_bounds [OF control_packet_in_bounds])
qed

lemma receiver_step_data:
  assumes "recvfrom dgram (recv_packet r, recv_beyond r) = (recv_len, pkt, bey)"
    and "0 < recv_len" and "verify_checksum bey pkt = Inr (True, pkt')"
    and "flags pkt AND FIN = 0"
    and "r3 = deliver pkt (r\<lparr>recv_beyond := bey, recv_packet := pkt,
            total_packets_received := total_packets_received r + 1\<rparr>)"
  shows "receiver_step dgram r =
    Inr (r3,
         [take HEADER_SIZE (bytes_of (zero_packet\<lparr>flags := ACK, ack_num := expected_seq_num r3 - 1,
            checksum := checksum_value []
              (zero_packet\<lparr>flags := ACK, ack_num := expected_seq_num r3 - 1\<rparr>)\<rparr>))])"
proof -
  have "pkt' = pkt" using assms(3) by (rule verify_checksum_returns_packet)
  then show ?thesis
    using assms
    by (simp add: receiver_step_def Let_def
        assign_checksum_in_bounds [OF control_packet_in_bounds])
qed

subsection \<open>The buffer stays above the cursor\<close>

lemma keys_map_assign: "fst ` set (map_assign k v m) = insert k (fst ` set m)"
proof (induction m)
  case Nil
  show ?case by simp
next
  case (Cons kv m)
  obtain k' v' where kv: "kv = (k', v')" by (cases kv)
  show ?case using Cons by (simp add: kv insert_commute)
qed

lemma keys_map_erase: "fst ` set (map_erase k m) = fst ` set m - {k}"
  by (auto simp add: map_erase_def)

lemma drain_above:
  assumes "\<forall>k \<in> fst ` set buf. e \<le> k" and "drain e buf w = (e', buf', w')"
  shows "\<forall>k \<in> fst ` set buf'. e' < k"
  using assms
proof (induction e buf w rule: drain.induct)
  case (1 e buf w)
  show ?case
  proof (cases "map_of buf e")
    case None
    then have "e \<notin> fst ` set buf" by (simp add: map_of_eq_None_iff)
    moreover have "e' = e" "buf' = buf" using None "1.prems"(2) by (simp_all add: drain.simps)
    ultimately show ?thesis using "1.prems"(1) by (metis order_le_less)
  next
    case (Some bp)
    have "\<forall>k \<in> fst ` set (map_erase e buf). e + 1 \<le> k"
    proof
      fix k assume "k \<in> fst ` set (map_erase e buf)"
      then have "k \<in> fst ` set buf" "k \<noteq> e" by (simp_all add: keys_map_erase)
      then have "e < k" using "1.prems"(1) by (metis order_le_less)
      then show "e + 1 \<le> k" by (rule inc_le)
    qed
    moreover have "drain (e + 1) (map_erase e buf) (w @ take (unat (data_len bp)) (data bp))
        = (e', buf', w')"
      using Some "1.prems"(2) by (simp add: drain.simps)
    ultimately show ?thesis using "1.IH" [OF Some] by blast
  qed
qed

lemma deliver_above:
  assumes "\<forall>k \<in> fst ` set (receive_buffer r). expected_seq_num r < k"
  shows "\<forall>k \<in> fst ` set (receive_buffer (deliver p r)). expected_seq_num (deliver p r) < k"
proof (cases "seq_num p = expected_seq_num r")
  case True
  obtain e' buf' w' where d: "drain (expected_seq_num r + 1) (receive_buffer r)
      (output_file r @ take (unat (data_len p)) (data p)) = (e', buf', w')"
    by (metis prod_cases3)
  have "\<forall>k \<in> fst ` set (receive_buffer r). expected_seq_num r + 1 \<le> k"
    using assms by (auto intro: inc_le)
  then have "\<forall>k \<in> fst ` set buf'. e' < k" using d by (rule drain_above)
  then show ?thesis using True d by (simp add: deliver_def)
next
  case False
  show ?thesis
  proof (cases "expected_seq_num r < seq_num p")
    case True
    have "receive_buffer (deliver p r) = map_assign (seq_num p) p (receive_buffer r)"
      and "expected_seq_num (deliver p r) = expected_seq_num r"
      using False True by (simp_all add: deliver_def)
    then show ?thesis using assms True by (simp add: keys_map_assign)
  next
    case lt: False
    then have "deliver p r = r" using False by (simp add: deliver_def)
    then show ?thesis using assms by simp
  qed
qed

lemma receiver_step_above:
  assumes inv: "\<forall>k \<in> fst ` set (receive_buffer r). expected_seq_num r < k"
    and step: "receiver_step dgram r = Inr (r', out)"
  shows "\<forall>k \<in> fst ` set (receive_buffer r'). expected_seq_num r' < k"
proof -
  obtain recv_len pkt bey
    where rf: "recvfrom dgram (recv_packet r, recv_beyond r) = (recv_len, pkt, bey)"
    by (metis prod_cases3)
  show ?thesis
  proof (cases "recv_len \<le> 0")
    case True
    have "r' = r\<lparr>recv_beyond := bey, recv_packet := pkt\<rparr>"
      using step receiver_step_nothing_received [OF rf True] by simp
    then show ?thesis using inv by simp
  next
    case False
    then have pos: "0 < recv_len" by simp
    show ?thesis
    proof (cases "verify_checksum bey pkt")
      case (Inl e)
      then show ?thesis using step receiver_step_out_of_bounds [OF rf pos] by simp
    next
      case (Inr res)
      obtain ok pkt' where res: "res = (ok, pkt')" by (cases res)
      show ?thesis
      proof (cases ok)
        case False
        then have "verify_checksum bey pkt = Inr (False, pkt')" using Inr res by simp
        then have "r' = r\<lparr>recv_beyond := bey, recv_packet := pkt\<rparr>"
          using step receiver_step_corrupt [OF rf pos] by simp
        then show ?thesis using inv by simp
      next
        case True
        then have v: "verify_checksum bey pkt = Inr (True, pkt')" using Inr res by simp
        show ?thesis
        proof (cases "flags pkt AND FIN = 0")
          case False
          then have "r' = r\<lparr>recv_beyond := bey, recv_packet := pkt, finished := True\<rparr>"
            using step receiver_step_fin [OF rf pos v] by simp
          then show ?thesis using inv by simp
        next
          case True
          define r0 where "r0 = r\<lparr>recv_beyond := bey, recv_packet := pkt,
            total_packets_received := total_packets_received r + 1\<rparr>"
          have "\<forall>k \<in> fst ` set (receive_buffer r0). expected_seq_num r0 < k"
            using inv by (simp add: r0_def)
          then have "\<forall>k \<in> fst ` set (receive_buffer (deliver pkt r0)).
              expected_seq_num (deliver pkt r0) < k"
            by (rule deliver_above)
          moreover have "r' = deliver pkt r0"
            using step receiver_step_data [OF rf pos v True refl] by (simp add: r0_def)
          ultimately show ?thesis by simp
        qed
      qed
    qed
  qed
qed

lemma run_receiver_above:
  assumes "run_receiver dgrams r = Inr (r', out)"
    and "\<forall>k \<in> fst ` set (receive_buffer r). expected_seq_num r < k"
  shows "\<forall>k \<in> fst ` set (receive_buffer r'). expected_seq_num r' < k"
  using assms
proof (induction dgrams arbitrary: r r' out)
  case Nil
  then show ?case by simp
next
  case (Cons d ds)
  show ?case
  proof (cases "finished r")
    case True
    then show ?thesis using Cons.prems by simp
  next
    case False
    obtain r1 out1 where s1: "receiver_step d r = Inr (r1, out1)"
      using Cons.prems(1) False by (auto split: sum.splits)
    obtain out2 where s2: "run_receiver ds r1 = Inr (r', out2)"
      using Cons.prems(1) False s1 by (auto split: sum.splits)
    have "\<forall>k \<in> fst ` set (receive_buffer r1). expected_seq_num r1 < k"
      using Cons.prems(2) s1 by (rule receiver_step_above)
    with s2 show ?thesis by (rule Cons.IH)
  qed
qed

subsection \<open>The payload of an accepted packet lies inside its array\<close>

lemma accepted_payload_in_array:
  assumes "recvfrom dgram buf = (recv_len, pkt, bey)"
    and "HEADER_SIZE + unat (data_len pkt) \<le> length (bytes_of pkt @ bey)"
  shows "unat (data_len pkt) \<le> length (data pkt)"
proof -
  define mem where "mem = take MAX_BUFFER_SIZE (bytes_of (fst buf) @ snd buf)"
  define mem' where "mem' = (if length dgram \<le> MAX_BUFFER_SIZE
    then dgram @ drop (length dgram) mem else take MAX_BUFFER_SIZE dgram)"
  have "length mem \<le> 1500" by (simp add: mem_def MAX_BUFFER_SIZE_def)
  then have L: "length mem' \<le> 1500" by (auto simp add: mem'_def MAX_BUFFER_SIZE_def)
  have "recvfrom dgram buf = (if length dgram \<le> MAX_BUFFER_SIZE then int (length dgram) else - 1,
      packet_of (take sizeof_Packet mem'), drop sizeof_Packet mem')"
    unfolding recvfrom_def Let_def mem'_def mem_def by (rule refl)
  then have pkt: "pkt = packet_of (take sizeof_Packet mem')"
    and bey: "bey = drop sizeof_Packet mem'"
    using assms(1) by simp_all
  have d: "length (data pkt) = min 1480 (min 1496 (length mem') - 16)"
    by (simp add: pkt packet_of_def sizeof_Packet_def MAX_DATA_SIZE_def MAX_BUFFER_SIZE_def
        HEADER_SIZE_def)
  have b: "length bey = length mem' - 1496"
    by (simp add: bey sizeof_Packet_def MAX_DATA_SIZE_def MAX_BUFFER_SIZE_def HEADER_SIZE_def)
  have "20 + unat (data_len pkt) \<le> 16 + length (data pkt) + length bey"
    using assms(2) by (simp add: length_bytes_of HEADER_SIZE_def)
  then show ?thesis using d b L by (cases "length mem' \<le> 1496") simp_all
qed


lemma set_map_assign_subset: "set (map_assign k v m) \<subseteq> insert (k, v) (set m)"
  by (induction m) (auto split: if_splits)

lemma drain_subset: "drain e buf w = (e', buf', w') \<Longrightarrow> set buf' \<subseteq> set buf"
proof (induction e buf w rule: drain.induct)
  case (1 e buf w)
  show ?case
  proof (cases "map_of buf e")
    case None
    then show ?thesis using "1.prems" by (simp add: drain.simps)
  next
    case (Some bp)
    have "drain (e + 1) (map_erase e buf) (w @ take (unat (data_len bp)) (data bp))
        = (e', buf', w')"
      using Some "1.prems" by (simp add: drain.simps)
    then have "set buf' \<subseteq> set (map_erase e buf)" by (rule "1.IH" [OF Some])
    then show ?thesis by (auto simp add: map_erase_def)
  qed
qed

lemma deliver_payloads:
  assumes "\<forall>kp \<in> set (receive_buffer r). unat (data_len (snd kp)) \<le> length (data (snd kp))"
    and "unat (data_len p) \<le> length (data p)"
  shows "\<forall>kp \<in> set (receive_buffer (deliver p r)).
    unat (data_len (snd kp)) \<le> length (data (snd kp))"
proof (cases "seq_num p = expected_seq_num r")
  case True
  obtain e' buf' w' where d: "drain (expected_seq_num r + 1) (receive_buffer r)
      (output_file r @ take (unat (data_len p)) (data p)) = (e', buf', w')"
    by (metis prod_cases3)
  have "set buf' \<subseteq> set (receive_buffer r)" using d by (rule drain_subset)
  then have "\<forall>kp \<in> set buf'. unat (data_len (snd kp)) \<le> length (data (snd kp))"
    using assms(1) by blast
  then show ?thesis using True d by (simp add: deliver_def)
next
  case False
  show ?thesis
  proof (cases "expected_seq_num r < seq_num p")
    case True
    have rb: "receive_buffer (deliver p r) = map_assign (seq_num p) p (receive_buffer r)"
      using False True by (simp add: deliver_def)
    show ?thesis
    proof
      fix kp assume "kp \<in> set (receive_buffer (deliver p r))"
      then have "kp = (seq_num p, p) \<or> kp \<in> set (receive_buffer r)"
        using set_map_assign_subset [of "seq_num p" p "receive_buffer r"] by (auto simp add: rb)
      then show "unat (data_len (snd kp)) \<le> length (data (snd kp))"
        using assms by auto
    qed
  next
    case lt: False
    then have "deliver p r = r" using False by (simp add: deliver_def)
    then show ?thesis using assms(1) by simp
  qed
qed

lemma receiver_step_payloads:
  assumes inv: "\<forall>kp \<in> set (receive_buffer r).
      unat (data_len (snd kp)) \<le> length (data (snd kp))"
    and step: "receiver_step dgram r = Inr (r', out)"
  shows "\<forall>kp \<in> set (receive_buffer r'). unat (data_len (snd kp)) \<le> length (data (snd kp))"
proof -
  obtain recv_len pkt bey
    where rf: "recvfrom dgram (recv_packet r, recv_beyond r) = (recv_len, pkt, bey)"
    by (metis prod_cases3)
  show ?thesis
  proof (cases "recv_len \<le> 0")
    case True
    have "r' = r\<lparr>recv_beyond := bey, recv_packet := pkt\<rparr>"
      using step receiver_step_nothing_received [OF rf True] by simp
    then show ?thesis using inv by simp
  next
    case False
    then have pos: "0 < recv_len" by simp
    show ?thesis
    proof (cases "HEADER_SIZE + unat (data_len pkt) \<le> length (bytes_of pkt @ bey)")
      case False
      then have "verify_checksum bey pkt = Inl OutOfBounds"
        by (rule verify_checksum_out_of_bounds)
      then show ?thesis using step receiver_step_out_of_bounds [OF rf pos] by simp
    next
      case True
      then have v: "verify_checksum bey pkt = Inr (checksum_value bey pkt = checksum pkt, pkt)"
        by (rule verify_checksum_in_bounds)
      have payload: "unat (data_len pkt) \<le> length (data pkt)"
        using rf True by (rule accepted_payload_in_array)
      show ?thesis
      proof (cases "checksum_value bey pkt = checksum pkt")
        case False
        then have "verify_checksum bey pkt = Inr (False, pkt)" using v by simp
        then have "r' = r\<lparr>recv_beyond := bey, recv_packet := pkt\<rparr>"
          using step receiver_step_corrupt [OF rf pos] by simp
        then show ?thesis using inv by simp
      next
        case ok: True
        then have vt: "verify_checksum bey pkt = Inr (True, pkt)" using v by simp
        show ?thesis
        proof (cases "flags pkt AND FIN = 0")
          case False
          then have "r' = r\<lparr>recv_beyond := bey, recv_packet := pkt, finished := True\<rparr>"
            using step receiver_step_fin [OF rf pos vt] by simp
          then show ?thesis using inv by simp
        next
          case True
          define r0 where "r0 = r\<lparr>recv_beyond := bey, recv_packet := pkt,
            total_packets_received := total_packets_received r + 1\<rparr>"
          have "\<forall>kp \<in> set (receive_buffer r0).
              unat (data_len (snd kp)) \<le> length (data (snd kp))"
            using inv by (simp add: r0_def)
          then have "\<forall>kp \<in> set (receive_buffer (deliver pkt r0)).
              unat (data_len (snd kp)) \<le> length (data (snd kp))"
            using payload by (rule deliver_payloads)
          moreover have "r' = deliver pkt r0"
            using step receiver_step_data [OF rf pos vt True refl] by (simp add: r0_def)
          ultimately show ?thesis by simp
        qed
      qed
    qed
  qed
qed

lemma run_receiver_payloads:
  assumes "run_receiver dgrams r = Inr (r', out)"
    and "\<forall>kp \<in> set (receive_buffer r). unat (data_len (snd kp)) \<le> length (data (snd kp))"
  shows "\<forall>kp \<in> set (receive_buffer r'). unat (data_len (snd kp)) \<le> length (data (snd kp))"
  using assms
proof (induction dgrams arbitrary: r r' out)
  case Nil
  then show ?case by simp
next
  case (Cons d ds)
  show ?case
  proof (cases "finished r")
    case True
    then show ?thesis using Cons.prems by simp
  next
    case False
    obtain r1 out1 where s1: "receiver_step d r = Inr (r1, out1)"
      using Cons.prems(1) False by (auto split: sum.splits)
    obtain out2 where s2: "run_receiver ds r1 = Inr (r', out2)"
      using Cons.prems(1) False s1 by (auto split: sum.splits)
    have "\<forall>kp \<in> set (receive_buffer r1). unat (data_len (snd kp)) \<le> length (data (snd kp))"
      using Cons.prems(2) s1 by (rule receiver_step_payloads)
    with s2 show ?thesis by (rule Cons.IH)
  qed
qed

subsection \<open>Worked runs of the receiver\<close>

lemma replicate_4: "replicate 4 x = [x, x, x, x]"
  by (simp add: numeral_eq_Suc)

lemmas receiver_eval =
  receiver_step_def recvfrom_def receiver_init_def receiver_start_def
  zero_packet_def bytes_of_def le32_def le16_def packet_of_def rd16_def rd32_def
  verify_checksum_def calculate_checksum_def assign_checksum_def deliver_def drain.simps
  map_erase_def Let_def sum_words_zeros fold_carries.simps replicate_4
  MAX_BUFFER_SIZE_def HEADER_SIZE_def MAX_DATA_SIZE_def sizeof_Packet_def
  ACK_def FIN_def SYN_def observe_receiver_def datagram_seq1_def datagram_seq3_def
  datagram_len_ffff_def

text \<open>A packet that arrives ahead of its turn is buffered and answered with ACK 0.\<close>

lemma run_out_of_order:
  "map_sum id observe_receiver (run_receiver [datagram_seq3] receiver_start)
     = Inr (1, [3], [], [[0,0,0,0, 0,0,0,0, 2,0, 0,0, 0,0, 0xFD,0xFF, 0,0,0,0]])"
  by (simp add: receiver_eval)


lemma step_in_order:
  "map_sum id observe_receiver (receiver_step datagram_seq1 receiver_start)
     = Inr (2, [], [0x41], [[0,0,0,0, 1,0,0,0, 2,0, 0,0, 0,0, 0xFC,0xFF, 0,0,0,0]])"
  by (simp add: receiver_eval)

lemma recvfrom_seq1:
  "fst (recvfrom datagram_seq1 (recv_packet receiver_start, recv_beyond receiver_start)) = 21"
  by (simp add: receiver_eval)

lemma Inr_of_observation: "map_sum f g x = Inr y \<Longrightarrow> x = Inr (projr x)"
  by (cases x) simp_all

text \<open>
  Claim C2. In every state the receive loop reaches from its initial state after a
  whole number of iterations, whatever was left in the memory of \<open>recv_packet\<close> and
  whatever datagrams arrive, every key stored in the receive buffer is strictly
  greater than \<open>expected_seq_num\<close>.
\<close>

theorem receive_buffer_above_expected:
  assumes "run_receiver dgrams (receiver_init pkt bey) = Inr (r, out)"
  shows "\<forall>k \<in> fst ` set (receive_buffer r). expected_seq_num r < k"
proof -
  have "\<forall>k \<in> fst ` set (receive_buffer (receiver_init pkt bey)).
      expected_seq_num (receiver_init pkt bey) < k"
    by (simp add: receiver_init_def)
  with assms show ?thesis by (rule run_receiver_above)
qed

theorem receive_buffer_above_expected_witness:
  "\<exists>r out. run_receiver [datagram_seq3] (receiver_init zero_packet [0, 0, 0, 0]) = Inr (r, out)
      \<and> map fst (receive_buffer r) = [3] \<and> expected_seq_num r < 3"
proof -
  define x where "x = projr (run_receiver [datagram_seq3] (receiver_init zero_packet [0, 0, 0, 0]))"
  have run: "run_receiver [datagram_seq3] (receiver_init zero_packet [0, 0, 0, 0])
      = Inr (fst x, snd x)"
    using Inr_of_observation [OF run_out_of_order] by (simp add: x_def receiver_start_def)
  have obs: "observe_receiver (fst x, snd x)
      = (1, [3], [], [[0,0,0,0, 0,0,0,0, 2,0, 0,0, 0,0, 0xFD,0xFF, 0,0,0,0]])"
    using run_out_of_order run by (simp add: receiver_start_def)
  then have keys: "map fst (receive_buffer (fst x)) = [3]"
    by (simp add: observe_receiver_def)
  then have "3 \<in> fst ` set (receive_buffer (fst x))"
    by (metis list.set_intros(1) set_map)
  then have "expected_seq_num (fst x) < 3"
    using receive_buffer_above_expected [OF run] by blast
  with run keys show ?thesis
    by (intro exI [of _ "fst x"] exI [of _ "snd x"]) simp
qed

text \<open>
  Claim C4. For every datagram the receiver takes as a data packet (something was
  received, the checksum verifies, FIN is not set), in order, ahead of its turn or
  already delivered, it sends exactly one datagram: a packet with flags ACK, a valid
  checksum and \<open>ack_num = expected_seq_num - 1\<close>, the cursor being read after the
  delivery and the drain of the buffer. A packet below the cursor changes neither the
  cursor nor the file nor the buffer, so its ACK repeats the previous \<open>ack_num\<close>.
\<close>

theorem receiver_acks_every_data_packet:
  assumes "recvfrom dgram (recv_packet r, recv_beyond r) = (recv_len, pkt, bey)"
    and "0 < recv_len"
    and "verify_checksum bey pkt = Inr (True, pkt')"
    and "flags pkt AND FIN = 0"
  shows "\<exists>r' send_packet.
      receiver_step dgram r = Inr (r', [take HEADER_SIZE (bytes_of send_packet)])
    \<and> r' = deliver pkt (r\<lparr>recv_beyond := bey, recv_packet := pkt,
              total_packets_received := total_packets_received r + 1\<rparr>)
    \<and> flags send_packet = ACK
    \<and> ack_num send_packet = expected_seq_num r' - 1
    \<and> seq_num send_packet = 0 \<and> data_len send_packet = 0
    \<and> verify_checksum [] send_packet = Inr (True, send_packet)
    \<and> (seq_num pkt < expected_seq_num r \<longrightarrow>
          expected_seq_num r' = expected_seq_num r \<and> output_file r' = output_file r
          \<and> receive_buffer r' = receive_buffer r)"
proof -
  define r' where "r' = deliver pkt (r\<lparr>recv_beyond := bey, recv_packet := pkt,
              total_packets_received := total_packets_received r + 1\<rparr>)"
  define body where "body = zero_packet\<lparr>flags := ACK, ack_num := expected_seq_num r' - 1\<rparr>"
  define send_packet where "send_packet = body\<lparr>checksum := checksum_value [] body\<rparr>"
  have step: "receiver_step dgram r = Inr (r', [take HEADER_SIZE (bytes_of send_packet)])"
    using receiver_step_data [OF assms r'_def] by (simp add: send_packet_def body_def)
  have fields: "flags send_packet = ACK" "ack_num send_packet = expected_seq_num r' - 1"
      "seq_num send_packet = 0" "data_len send_packet = 0"
    by (simp_all add: send_packet_def body_def zero_packet_def)
  have valid: "verify_checksum [] send_packet = Inr (True, send_packet)"
    unfolding send_packet_def body_def
    by (rule verify_assigned_checksum) (rule control_packet_in_bounds)
  have old: "expected_seq_num r' = expected_seq_num r \<and> output_file r' = output_file r
      \<and> receive_buffer r' = receive_buffer r" if "seq_num pkt < expected_seq_num r"
  proof -
    have "seq_num pkt \<noteq> expected_seq_num r" "\<not> expected_seq_num r < seq_num pkt"
      using that by auto
    then show ?thesis by (simp add: r'_def deliver_def)
  qed
  show ?thesis
    using step fields valid old r'_def by (intro exI [of _ r'] exI [of _ send_packet]) simp
qed

theorem receiver_acks_every_data_packet_witness:
  "\<exists>r' send_packet.
      receiver_step datagram_seq1 receiver_start
        = Inr (r', [take HEADER_SIZE (bytes_of send_packet)])
    \<and> flags send_packet = ACK \<and> ack_num send_packet = expected_seq_num r' - 1
    \<and> expected_seq_num r' = 2"
proof -
  define x where
    "x = recvfrom datagram_seq1 (recv_packet receiver_start, recv_beyond receiver_start)"
  have h1: "recvfrom datagram_seq1 (recv_packet receiver_start, recv_beyond receiver_start)
      = (fst x, fst (snd x), snd (snd x))"
    by (simp add: x_def)
  have h2: "0 < fst x" by (simp add: x_def recvfrom_seq1)
  have h3: "verify_checksum (snd (snd x)) (fst (snd x)) = Inr (True, fst (snd x))"
    by (simp add: x_def receiver_eval)
  have h4: "flags (fst (snd x)) AND FIN = 0"
    by (simp add: x_def receiver_eval)
  obtain r' send_packet where
    step: "receiver_step datagram_seq1 receiver_start
        = Inr (r', [take HEADER_SIZE (bytes_of send_packet)])"
    and ack: "flags send_packet = ACK" "ack_num send_packet = expected_seq_num r' - 1"
    using receiver_acks_every_data_packet [OF h1 h2 h3 h4] by blast
  have "expected_seq_num r' = 2"
    using step_in_order step by (simp add: observe_receiver_def)
  with step ack show ?thesis
    by (intro exI [of _ r'] exI [of _ send_packet]) simp
qed







section \<open>The congestion controller\<close>

lemma double_to_uint32_ge_2: "2 \<le> double_to_uint32 (max 2 x)"
proof -
  have "(2 :: int) \<le> \<lfloor>max 2 x\<rfloor>" by (simp add: le_floor_iff)
  then have "nat 2 \<le> nat \<lfloor>max 2 x\<rfloor>" by (rule nat_mono)
  then show ?thesis by (simp add: double_to_uint32_def)
qed

lemma double_to_uint32_le:
  assumes "x \<le> of_nat k"
  shows "double_to_uint32 x \<le> k"
proof -
  have "\<lfloor>x\<rfloor> \<le> \<lfloor>of_nat k :: rat\<rfloor>" using assms by (rule floor_mono)
  then have "\<lfloor>x\<rfloor> \<le> int k" by simp
  then show ?thesis by (simp add: double_to_uint32_def)
qed

lemma rounding_exact: "rounding exact"
  by (simp add: rounding_def exact_def)

lemma rounding_ge_1: "rounding rnd \<Longrightarrow> 1 \<le> x \<Longrightarrow> 1 \<le> rnd x"
  unfolding rounding_def by metis

lemma rounding_ge_0: "rounding rnd \<Longrightarrow> 0 \<le> x \<Longrightarrow> 0 \<le> rnd x"
  unfolding rounding_def by metis

lemma rounding_le_1: "rounding rnd \<Longrightarrow> x \<le> 1 \<Longrightarrow> rnd x \<le> 1"
  unfolding rounding_def by metis

lemma rounding_le_nat:
  "rounding rnd \<Longrightarrow> rnd (of_nat k) = of_nat k \<Longrightarrow> x \<le> of_nat k \<Longrightarrow> rnd x \<le> of_nat k"
  unfolding rounding_def by metis

subsection \<open>Three duplicate ACKs\<close>

lemma floor_7_halves: "\<lfloor>7 / 2 :: rat\<rfloor> = 3"
  by (rule floor_unique) simp_all

text \<open>
  Six new ACKs in slow start bring \<open>cwnd\<close> from 1 to 7 and \<open>send_base\<close> to 7; two
  duplicate ACKs follow.
\<close>

lemma run_to_cwnd_7:
  "controller_run exact [Ack 1, Ack 2, Ack 3, Ack 4, Ack 5, Ack 6, Ack 0, Ack 0] sender_init
     = sender_init\<lparr>send_base := 7, cwnd := 7, duplicate_ack_count := 2,
         total_acks_received := 8\<rparr>"
  by (simp add: on_ack_def Let_def sender_init_def exact_def)

lemma run_to_third_duplicate:
  "controller_run exact
      [Ack 1, Ack 2, Ack 3, Ack 4, Ack 5, Ack 6, Ack 0, Ack 0, Ack 0] sender_init
     = sender_init\<lparr>send_base := 7, retransmit_seq_num := 7, cwnd := 6, ssthresh := 3,
         state := FAST_RECOVERY, duplicate_ack_count := 3, total_acks_received := 9\<rparr>"
  by (simp add: on_ack_def Let_def sender_init_def exact_def double_to_uint32_def
      floor_7_halves)

text \<open>
  Claim C3 as stated fails. With \<open>cwnd = 7\<close> the third duplicate ACK sets \<open>ssthresh\<close> to
  3 and \<open>cwnd\<close> to 6, where \<open>max(2, cwnd / 2)\<close> is 3.5 and \<open>max(2, cwnd / 2) + 3\<close> is 6.5:
  \<open>ssthresh\<close> is a \<^verbatim>\<open>uint32_t\<close>, the assignment drops the fraction, and \<open>cwnd\<close> is computed
  from the integer.
\<close>

theorem duplicate_ack_threshold_truncated:
  "cwnd (controller_run exact
      [Ack 1, Ack 2, Ack 3, Ack 4, Ack 5, Ack 6, Ack 0, Ack 0] sender_init) = 7
   \<and> ssthresh (controller_run exact
      [Ack 1, Ack 2, Ack 3, Ack 4, Ack 5, Ack 6, Ack 0, Ack 0, Ack 0] sender_init) = 3
   \<and> cwnd (controller_run exact
      [Ack 1, Ack 2, Ack 3, Ack 4, Ack 5, Ack 6, Ack 0, Ack 0, Ack 0] sender_init) = 6
   \<and> (3 :: rat) \<noteq> max 2 (7 / 2)
   \<and> (6 :: rat) \<noteq> max 2 (7 / 2) + 3"
  unfolding run_to_cwnd_7 run_to_third_duplicate by simp

text \<open>
  Claim C3, amended. A duplicate ACK (\<open>ack_num < send_base\<close>) that arrives outside fast
  recovery and brings the counter to exactly 3 puts the controller into fast recovery,
  sets \<open>ssthresh\<close> to \<open>max(2, cwnd / 2)\<close> with the fraction dropped (its floor, \<open>ssthresh\<close>
  being an unsigned integer), sets \<open>cwnd\<close> to this integer plus 3 and signals a fast
  retransmit of \<open>send_base\<close>. A duplicate ACK that arrives during fast recovery adds 1
  to \<open>cwnd\<close> and changes nothing else but the two counters: no retransmit signal, no
  change of state or threshold.
\<close>

theorem duplicate_ack_handling:
  assumes "acked_num < send_base s"
  shows "(state s \<noteq> FAST_RECOVERY \<and> duplicate_ack_count s + 1 = 3 \<longrightarrow>
            state (on_ack rnd acked_num s) = FAST_RECOVERY
          \<and> ssthresh (on_ack rnd acked_num s) = nat \<lfloor>max 2 (rnd (cwnd s / 2))\<rfloor>
          \<and> cwnd (on_ack rnd acked_num s) = of_nat (nat \<lfloor>max 2 (rnd (cwnd s / 2))\<rfloor>) + 3
          \<and> retransmit_seq_num (on_ack rnd acked_num s) = send_base s)
       \<and> (state s = FAST_RECOVERY \<longrightarrow>
            on_ack rnd acked_num s =
              s\<lparr>total_acks_received := total_acks_received s + 1,
                duplicate_ack_count := duplicate_ack_count s + 1,
                cwnd := rnd (cwnd s + 1)\<rparr>)"
proof -
  have dup: "\<not> send_base s \<le> acked_num" using assms by simp
  show ?thesis by (simp add: on_ack_def Let_def dup double_to_uint32_def)
qed

theorem duplicate_ack_handling_witness:
  "state (controller_run exact
      [Ack 1, Ack 2, Ack 3, Ack 4, Ack 5, Ack 6, Ack 0, Ack 0, Ack 0] sender_init)
     = FAST_RECOVERY
   \<and> ssthresh (controller_run exact
      [Ack 1, Ack 2, Ack 3, Ack 4, Ack 5, Ack 6, Ack 0, Ack 0, Ack 0] sender_init) = 3
   \<and> cwnd (controller_run exact
      [Ack 1, Ack 2, Ack 3, Ack 4, Ack 5, Ack 6, Ack 0, Ack 0, Ack 0] sender_init) = 6
   \<and> retransmit_seq_num (controller_run exact
      [Ack 1, Ack 2, Ack 3, Ack 4, Ack 5, Ack 6, Ack 0, Ack 0, Ack 0] sender_init) = 7
   \<and> cwnd (controller_run exact
      [Ack 1, Ack 2, Ack 3, Ack 4, Ack 5, Ack 6, Ack 0, Ack 0, Ack 0, Ack 0] sender_init) = 7
   \<and> retransmit_seq_num
        (on_ack exact 0
          ((controller_run exact
             [Ack 1, Ack 2, Ack 3, Ack 4, Ack 5, Ack 6, Ack 0, Ack 0, Ack 0] sender_init)
           \<lparr>retransmit_seq_num := 0\<rparr>))
       = 0"
proof -
  define s8 where "s8 = controller_run exact
    [Ack 1, Ack 2, Ack 3, Ack 4, Ack 5, Ack 6, Ack 0, Ack 0] sender_init"
  have s8: "s8 = sender_init\<lparr>send_base := 7, cwnd := 7, duplicate_ack_count := 2,
      total_acks_received := 8\<rparr>"
    unfolding s8_def by (rule run_to_cwnd_7)
  have a: "(0 :: 32 word) < send_base s8" "state s8 \<noteq> FAST_RECOVERY"
      "duplicate_ack_count s8 + 1 = 3" "cwnd s8 = 7" "send_base s8 = 7"
    by (simp_all add: s8 sender_init_def)
  define s9 where "s9 = on_ack exact 0 s8"
  have s9: "state s9 = FAST_RECOVERY" "ssthresh s9 = 3" "cwnd s9 = 6"
      "retransmit_seq_num s9 = 7"
    using duplicate_ack_handling [OF a(1), of exact] a
    by (simp_all add: s9_def exact_def floor_7_halves)
  have sb: "send_base s9 = 7"
    by (simp add: s9_def s8 on_ack_def Let_def sender_init_def)
  have b: "(0 :: 32 word) < send_base (s9\<lparr>retransmit_seq_num := 0\<rparr>)"
    "state (s9\<lparr>retransmit_seq_num := 0\<rparr>) = FAST_RECOVERY"
    by (simp_all add: s9 sb)
  have b0: "(0 :: 32 word) < send_base s9" by (simp add: sb)
  have s10: "cwnd (on_ack exact 0 s9) = 7"
    using duplicate_ack_handling [OF b0, of exact] s9 by (simp add: exact_def)
  have s10': "retransmit_seq_num (on_ack exact 0 (s9\<lparr>retransmit_seq_num := 0\<rparr>)) = 0"
    using duplicate_ack_handling [OF b(1), of exact] b(2) by simp
  have r9: "controller_run exact
      [Ack 1, Ack 2, Ack 3, Ack 4, Ack 5, Ack 6, Ack 0, Ack 0, Ack 0] sender_init = s9"
    by (simp add: s9_def s8_def)
  have r10: "controller_run exact
      [Ack 1, Ack 2, Ack 3, Ack 4, Ack 5, Ack 6, Ack 0, Ack 0, Ack 0, Ack 0] sender_init
      = on_ack exact 0 s9"
    by (simp add: s9_def s8_def)
  show ?thesis
    unfolding r9 r10 using s9 s10 s10' by simp
qed

subsection \<open>The controller's bounds\<close>

lemma on_ack_bounds:
  assumes "rounding rnd" and "1 \<le> cwnd s" and "2 \<le> ssthresh s"
  shows "1 \<le> cwnd (on_ack rnd n s) \<and> 2 \<le> ssthresh (on_ack rnd n s)"
proof -
  have inc: "1 \<le> rnd (cwnd s + 1)"
    using assms(1) by (rule rounding_ge_1) (use assms(2) in simp)
  have "0 \<le> rnd (1 / cwnd s)"
    using assms(1) by (rule rounding_ge_0) (use assms(2) in simp)
  then have "1 \<le> cwnd s + rnd (1 / cwnd s)" using assms(2) by simp
  then have avoid: "1 \<le> rnd (cwnd s + rnd (1 / cwnd s))"
    using assms(1) by (rule rounding_ge_1 [rotated])
  have thr: "(1 :: rat) \<le> of_nat (ssthresh s)" using assms(3) by simp
  show ?thesis
    using assms(2,3) inc avoid thr double_to_uint32_ge_2 [of "rnd (cwnd s / 2)"]
    by (simp add: on_ack_def Let_def)
qed

lemma on_timeout_bounds:
  "1 \<le> cwnd (on_timeout rnd s) \<and> 2 \<le> ssthresh (on_timeout rnd s)"
  using double_to_uint32_ge_2 [of "rnd (cwnd s / 2)"] by (simp add: on_timeout_def Let_def)

lemma controller_step_bounds:
  assumes "rounding rnd" and "1 \<le> cwnd s" and "2 \<le> ssthresh s"
  shows "1 \<le> cwnd (controller_step rnd ev s) \<and> 2 \<le> ssthresh (controller_step rnd ev s)"
  using assms by (cases ev) (simp_all add: on_ack_bounds on_timeout_bounds)

lemma controller_run_bounds:
  assumes "rounding rnd" and "1 \<le> cwnd s" and "2 \<le> ssthresh s"
  shows "1 \<le> cwnd (controller_run rnd evs s) \<and> 2 \<le> ssthresh (controller_run rnd evs s)"
  using assms(2,3)
proof (induction evs arbitrary: s)
  case Nil
  then show ?case by simp
next
  case (Cons ev evs)
  have "1 \<le> cwnd (controller_step rnd ev s) \<and> 2 \<le> ssthresh (controller_step rnd ev s)"
    using assms(1) Cons.prems by (rule controller_step_bounds)
  then show ?case using Cons.IH by simp
qed

text \<open>
  Claim C6. Starting from \<open>cwnd = 1\<close> and \<open>ssthresh = 16\<close>, after every sequence of
  controller events (ACKs, new or duplicate, and retransmission timeouts) \<open>cwnd\<close> is at
  least 1 and \<open>ssthresh\<close> at least 2, whatever the rounding of the floating-point
  operations.
\<close>

theorem controller_bounds:
  assumes "rounding rnd"
  shows "1 \<le> cwnd (controller_run rnd evs sender_init)
       \<and> 2 \<le> ssthresh (controller_run rnd evs sender_init)"
  using assms by (rule controller_run_bounds) (simp_all add: sender_init_def)

theorem controller_bounds_witness:
  "rounding exact
   \<and> cwnd (controller_run exact [Ack 1, Timeout, Ack 2, Ack 3] sender_init) = 5 / 2
   \<and> ssthresh (controller_run exact [Ack 1, Timeout, Ack 2, Ack 3] sender_init) = 2
   \<and> 1 \<le> cwnd (controller_run exact [Ack 1, Timeout, Ack 2, Ack 3] sender_init)
   \<and> 2 \<le> ssthresh (controller_run exact [Ack 1, Timeout, Ack 2, Ack 3] sender_init)"
proof -
  have "cwnd (controller_run exact [Ack 1, Timeout, Ack 2, Ack 3] sender_init) = 5 / 2"
    and "ssthresh (controller_run exact [Ack 1, Timeout, Ack 2, Ack 3] sender_init) = 2"
    by (simp_all add: on_ack_def on_timeout_def Let_def sender_init_def double_to_uint32_def
        exact_def)
  then show ?thesis
    using rounding_exact controller_bounds [OF rounding_exact, of "[Ack 1, Timeout, Ack 2, Ack 3]"]
    by simp
qed

subsection \<open>The integer variables stay inside their types\<close>

text \<open>
  \<open>ssthresh\<close> and \<open>duplicate_ack_count\<close> are modelled without a width. The lemmas below
  show that this loses nothing for runs of fewer than 700 million controller events,
  given a rounding that leaves the natural numbers up to the bound as they are.
\<close>

lemma halved_le:
  assumes r: "rounding rnd" and fx: "rnd (of_nat k) = of_nat k"
    and c: "1 \<le> c" "c \<le> of_nat k" and k: "2 \<le> k"
  shows "double_to_uint32 (max 2 (rnd (c / 2))) \<le> k"
proof -
  have "c / 2 \<le> of_nat k" using c by simp
  then have "rnd (c / 2) \<le> of_nat k" using r fx by (rule rounding_le_nat [rotated 2])
  moreover have "(2 :: rat) \<le> of_nat k" using k by simp
  ultimately have "max 2 (rnd (c / 2)) \<le> of_nat k" by simp
  then show ?thesis by (rule double_to_uint32_le)
qed

lemma on_timeout_range:
  assumes r: "rounding rnd" and fx: "\<forall>k \<le> 19 + 3 * Suc n. rnd (of_nat k) = of_nat k"
    and inv: "in_range n s"
  shows "in_range (Suc n) (on_timeout rnd s)"
proof -
  have fxB: "rnd (of_nat (19 + 3 * n)) = of_nat (19 + 3 * n)"
    by (rule fx [rule_format]) simp
  have c: "1 \<le> cwnd s" "cwnd s \<le> of_nat (19 + 3 * n)"
    using inv by (simp_all add: in_range_def)
  have "double_to_uint32 (max 2 (rnd (cwnd s / 2))) \<le> 19 + 3 * n"
    using r fxB c by (rule halved_le) simp
  then show ?thesis
    using inv double_to_uint32_ge_2 [of "rnd (cwnd s / 2)"]
    by (simp add: on_timeout_def Let_def in_range_def)
qed

lemma on_ack_range:
  assumes r: "rounding rnd" and fx: "\<forall>k \<le> 19 + 3 * Suc n. rnd (of_nat k) = of_nat k"
    and inv: "in_range n s"
  shows "in_range (Suc n) (on_ack rnd a s)"
proof -
  have c: "1 \<le> cwnd s" "cwnd s \<le> of_nat (19 + 3 * n)" using inv by (simp_all add: in_range_def)
  have fxB: "rnd (of_nat (19 + 3 * n)) = of_nat (19 + 3 * n)"
    by (rule fx [rule_format]) simp
  have half: "double_to_uint32 (max 2 (rnd (cwnd s / 2))) \<le> 19 + 3 * n"
    using r fxB c by (rule halved_le) simp
  have fx1: "rnd (of_nat (20 + 3 * n)) = of_nat (20 + 3 * n)"
    by (rule fx [rule_format]) simp
  have "cwnd s + 1 \<le> of_nat (20 + 3 * n)" using c by simp
  then have inc: "rnd (cwnd s + 1) \<le> of_nat (20 + 3 * n)"
    using r fx1 by (rule rounding_le_nat [rotated 2])
  have one: "1 \<le> rnd (cwnd s + 1)" using r by (rule rounding_ge_1) (use c in simp)
  have "1 / cwnd s \<le> 1" using c by simp
  then have le1: "rnd (1 / cwnd s) \<le> 1" using r by (rule rounding_le_1 [rotated])
  have ge0: "0 \<le> rnd (1 / cwnd s)" using r by (rule rounding_ge_0) (use c in simp)
  have "cwnd s + rnd (1 / cwnd s) \<le> of_nat (20 + 3 * n)" using c le1 by simp
  then have av: "rnd (cwnd s + rnd (1 / cwnd s)) \<le> of_nat (20 + 3 * n)"
    using r fx1 by (rule rounding_le_nat [rotated 2])
  have "1 \<le> cwnd s + rnd (1 / cwnd s)" using c ge0 by simp
  then have av1: "1 \<le> rnd (cwnd s + rnd (1 / cwnd s))" using r by (rule rounding_ge_1 [rotated])
  have thr: "rat_of_nat (ssthresh s) \<le> 22 + 3 * rat_of_nat n" 
  proof -
    have "ssthresh s \<le> 22 + 3 * n" using inv by (simp add: in_range_def)
    then have "rat_of_nat (ssthresh s) \<le> rat_of_nat (22 + 3 * n)" by (simp only: of_nat_le_iff)
    then show ?thesis by simp
  qed
  show ?thesis
    using inv half inc one av av1 thr double_to_uint32_ge_2 [of "rnd (cwnd s / 2)"]
    by (auto simp add: on_ack_def Let_def in_range_def)
qed

lemma controller_run_range:
  assumes r: "rounding rnd"
    and fx: "\<forall>k \<le> 19 + 3 * (n + length evs). rnd (of_nat k) = of_nat k"
    and inv: "in_range n s"
  shows "in_range (n + length evs) (controller_run rnd evs s)"
  using fx inv
proof (induction evs arbitrary: n s)
  case Nil
  then show ?case by simp
next
  case (Cons ev evs)
  have fx1: "\<forall>k \<le> 19 + 3 * Suc n. rnd (of_nat k) = of_nat k"
    using Cons.prems(1) by simp
  have "in_range (Suc n) (controller_step rnd ev s)"
    using r fx1 Cons.prems(2) by (cases ev) (simp_all add: on_ack_range on_timeout_range)
  moreover have "\<forall>k \<le> 19 + 3 * (Suc n + length evs). rnd (of_nat k) = of_nat k"
    using Cons.prems(1) by simp
  ultimately have "in_range (Suc n + length evs)
      (controller_run rnd evs (controller_step rnd ev s))"
    by (rule Cons.IH [rotated])
  then show ?case by simp
qed

lemma controller_range:
  assumes "rounding rnd"
    and "\<forall>k \<le> 19 + 3 * length evs. rnd (of_nat k) = of_nat k"
    and "length evs < 700000000"
  shows "ssthresh (controller_run rnd evs sender_init) + 3 < 2 ^ 32
    \<and> 0 \<le> duplicate_ack_count (controller_run rnd evs sender_init)
    \<and> duplicate_ack_count (controller_run rnd evs sender_init) < 2 ^ 31 - 1"
proof -
  have "in_range 0 sender_init" by (simp add: in_range_def sender_init_def)
  then have "in_range (0 + length evs) (controller_run rnd evs sender_init)"
    using assms(1,2) by (intro controller_run_range) simp_all
  then show ?thesis using assms(3) by (simp add: in_range_def)
qed

section \<open>Admission of new data\<close>

lemma length_map_assign_le: "length (map_assign k v m) \<le> Suc (length m)"
  by (induction m) auto

lemma new_packet_in_bounds:
  assumes "4 \<le> length beyond"
  shows "HEADER_SIZE + unat (data_len (new_packet file_buffer s))
    \<le> length (bytes_of (new_packet file_buffer s) @ beyond)"
proof -
  define d where "d = min MAX_DATA_SIZE (length file_buffer - bytes_sent_total s)"
  have d: "d \<le> 1480"
    by (simp add: d_def MAX_DATA_SIZE_def MAX_BUFFER_SIZE_def HEADER_SIZE_def)
  have "unat (of_nat d :: 16 word) \<le> d" by (simp add: unat_of_nat)
  then have len: "unat (data_len (new_packet file_buffer s)) \<le> 1480"
    using d by (simp add: new_packet_def Let_def d_def [symmetric])
  have "length (data (new_packet file_buffer s)) = 1480"
    by (simp add: new_packet_def Let_def zero_packet_def MAX_DATA_SIZE_def
        MAX_BUFFER_SIZE_def HEADER_SIZE_def)
  then show ?thesis using len assms by (simp add: length_bytes_of HEADER_SIZE_def)
qed

lemma admit_new_data_bound:
  assumes "4 \<le> length beyond"
  shows "\<exists>s'. admit_new_data beyond file_buffer now s = Inr s' \<and> cwnd s' = cwnd s
    \<and> int (length (send_window s'))
        \<le> max (int (length (send_window s)))
             \<lceil>min (of_int (FLOW_CONTROL_WINDOW_SIZE Client_common_h)) (cwnd s)\<rceil>"
  using assms
proof (induction beyond file_buffer now s rule: admit_new_data.induct)
  case (1 beyond file_buffer now s)
  define m where "m = min (of_int (FLOW_CONTROL_WINDOW_SIZE Client_common_h)) (cwnd s)"
  show ?case
  proof (cases "of_nat (length (send_window s))
           < min (of_int (FLOW_CONTROL_WINDOW_SIZE Client_common_h)) (cwnd s)
         \<and> bytes_sent_total s < length file_buffer")
    case False
    have "admit_new_data beyond file_buffer now s = Inr s"
      using False
      apply (subst admit_new_data.simps)
      apply (simp only: if_False simp_thms)
      done
    then show ?thesis by simp
  next
    case True
    define p where "p = (new_packet file_buffer s)
      \<lparr>checksum := checksum_value beyond (new_packet file_buffer s)\<rparr>"
    have ac: "assign_checksum beyond (new_packet file_buffer s) = Inr p"
      unfolding p_def
      by (rule assign_checksum_in_bounds) (rule new_packet_in_bounds [OF "1.prems"])
    define s1 where "s1 = s\<lparr>sent := sent s
        @ [take (HEADER_SIZE + min MAX_DATA_SIZE (length file_buffer - bytes_sent_total s))
             (bytes_of p @ beyond)],
      total_packets_sent := total_packets_sent s + 1,
      send_window := map_assign (next_seq_num s)
        \<lparr>packet = p, send_time = now, acked = False\<rparr> (send_window s),
      next_seq_num := next_seq_num s + 1,
      bytes_sent_total := bytes_sent_total s
        + min MAX_DATA_SIZE (length file_buffer - bytes_sent_total s)\<rparr>"
    have unfold: "admit_new_data beyond file_buffer now s
        = admit_new_data beyond file_buffer now s1"
      using True
      apply (subst admit_new_data.simps)
      apply (simp only: if_True simp_thms ac sum.case s1_def)
      done
    have "\<exists>s'. admit_new_data beyond file_buffer now s1 = Inr s' \<and> cwnd s' = cwnd s1
      \<and> int (length (send_window s'))
        \<le> max (int (length (send_window s1)))
             \<lceil>min (of_int (FLOW_CONTROL_WINDOW_SIZE Client_common_h)) (cwnd s1)\<rceil>"
      unfolding s1_def by (rule "1.IH" [OF True ac "1.prems"])
    then obtain s' where s': "admit_new_data beyond file_buffer now s1 = Inr s'"
      and c': "cwnd s' = cwnd s1"
      and l': "int (length (send_window s'))
        \<le> max (int (length (send_window s1)))
             \<lceil>min (of_int (FLOW_CONTROL_WINDOW_SIZE Client_common_h)) (cwnd s1)\<rceil>"
      by blast
    have cw: "cwnd s1 = cwnd s" by (simp add: s1_def)
    have "of_int (int (length (send_window s))) < m" using True by (simp add: m_def)
    then have "int (length (send_window s)) < \<lceil>m\<rceil>" by (simp only: less_ceiling_iff)
    moreover have "length (send_window s1) \<le> Suc (length (send_window s))"
      by (simp add: s1_def length_map_assign_le)
    ultimately have "int (length (send_window s1)) \<le> \<lceil>m\<rceil>" by simp
    then have "int (length (send_window s')) \<le> \<lceil>m\<rceil>"
      using l' by (simp add: cw m_def)
    then show ?thesis using unfold s' c' cw by (simp add: m_def)
  qed
qed

lemma ceiling_5_halves: "\<lceil>5 / 2 :: rat\<rceil> = 3"
  by (rule ceiling_unique) simp_all

lemmas sender_eval =
  main_step_def admit_new_data.simps retransmit_def
  on_ack_def on_timeout_def exact_def sender_init_def new_packet_def Let_def
  map_count_def observe_sender_def double_to_uint32_def zero_packet_def length_bytes_of
  assign_checksum_in_bounds MAX_BUFFER_SIZE_def HEADER_SIZE_def MAX_DATA_SIZE_def

text \<open>
  A run of the sender on a file of 8000 bytes. Packet 1 is sent and times out
  (\<open>ssthresh = 2\<close>, \<open>cwnd = 1\<close>); its ACK ends slow start at \<open>cwnd = 2\<close>; packets 2 and 3
  are sent and acknowledged, which brings \<open>cwnd\<close> to 5/2 in congestion avoidance; the
  next admission step sends packets 4, 5 and 6.
\<close>

lemma run_to_fractional_cwnd:
  "map_sum id observe_sender
     (run_sender exact [0, 0, 0, 0] (replicate 8000 0)
        [MainStep 0, MainStep 2000, AckArrives 1, MainStep 2010, AckArrives 3, MainStep 2020]
        sender_init)
   = Inr ([4, 5, 6], 5 / 2, 2, CONGESTION_AVOIDANCE)"
  by (simp add: sender_eval)

text \<open>All three then time out: \<open>cwnd\<close> falls to 1 while the window still holds them.\<close>

lemma run_to_shrunk_cwnd:
  "map_sum id observe_sender
     (run_sender exact [0, 0, 0, 0] (replicate 8000 0)
        [MainStep 0, MainStep 2000, AckArrives 1, MainStep 2010, AckArrives 3, MainStep 2020,
         MainStep 4000]
        sender_init)
   = Inr ([4, 5, 6], 1, 2, SLOW_START)"
  by (simp add: sender_eval)

text \<open>
  Claim C1 as stated fails in both ways: after the admission step that follows
  \<open>cwnd = 5/2\<close> the window holds 3 packets, more than \<open>floor(cwnd) = 2\<close>; and after the
  admission step that follows the timeouts it still holds 3, more than \<open>cwnd = 1\<close>.
\<close>

theorem admission_floor_bound_fails:
  "map_sum id observe_sender
     (run_sender exact [0, 0, 0, 0] (replicate 8000 0)
        [MainStep 0, MainStep 2000, AckArrives 1, MainStep 2010, AckArrives 3, MainStep 2020]
        sender_init)
   = Inr ([4, 5, 6], 5 / 2, 2, CONGESTION_AVOIDANCE)
   \<and> \<not> int (length [4, 5, 6 :: 32 word])
         \<le> min (FLOW_CONTROL_WINDOW_SIZE Client_common_h) \<lfloor>5 / 2 :: rat\<rfloor>
   \<and> map_sum id observe_sender
     (run_sender exact [0, 0, 0, 0] (replicate 8000 0)
        [MainStep 0, MainStep 2000, AckArrives 1, MainStep 2010, AckArrives 3, MainStep 2020,
         MainStep 4000]
        sender_init)
   = Inr ([4, 5, 6], 1, 2, SLOW_START)
   \<and> \<not> int (length [4, 5, 6 :: 32 word])
         \<le> min (FLOW_CONTROL_WINDOW_SIZE Client_common_h) \<lfloor>1 :: rat\<rfloor>"
  using run_to_fractional_cwnd run_to_shrunk_cwnd by simp

text \<open>
  Claim C1, amended. The admission step sends a packet only while the window holds
  fewer than \<open>min(FLOW_CONTROL_WINDOW_SIZE, cwnd)\<close> entries, the comparison being made
  in \<^verbatim>\<open>double\<close> without rounding \<open>cwnd\<close>. So after the step the window holds at most
  \<open>ceiling(min(FLOW_CONTROL_WINDOW_SIZE, cwnd))\<close> entries, or as many as it held before
  the step if that was more. The step always completes and leaves \<open>cwnd\<close> as it was;
  the premise provides the four bytes behind a packet object that the checksum of a
  full packet reads.
\<close>

theorem admission_window_bound:
  assumes "4 \<le> length beyond"
  shows "\<exists>s'. admit_new_data beyond file_buffer now s = Inr s' \<and> cwnd s' = cwnd s
    \<and> int (length (send_window s'))
        \<le> max (int (length (send_window s)))
             \<lceil>min (of_int (FLOW_CONTROL_WINDOW_SIZE Client_common_h)) (cwnd s)\<rceil>"
  using assms by (rule admit_new_data_bound)

theorem admission_window_bound_witness:
  "(4 :: nat) \<le> length [0, 0, 0, 0 :: 8 word]
   \<and> (\<exists>s'. admit_new_data [0, 0, 0, 0] (replicate 8000 0) 0
              (sender_init\<lparr>cwnd := 5 / 2, state := CONGESTION_AVOIDANCE\<rparr>) = Inr s'
         \<and> map fst (send_window s') = [1, 2, 3]
         \<and> int (length (send_window s')) \<le> 3)"
proof -
  have h: "(4 :: nat) \<le> length [0, 0, 0, 0 :: 8 word]" by simp
  obtain s' where s': "admit_new_data [0, 0, 0, 0] (replicate 8000 0) 0
      (sender_init\<lparr>cwnd := 5 / 2, state := CONGESTION_AVOIDANCE\<rparr>) = Inr s'"
    and b: "int (length (send_window s'))
        \<le> max (int (length (send_window (sender_init\<lparr>cwnd := 5 / 2,
              state := CONGESTION_AVOIDANCE\<rparr>))))
             \<lceil>min (of_int (FLOW_CONTROL_WINDOW_SIZE Client_common_h))
               (cwnd (sender_init\<lparr>cwnd := 5 / 2, state := CONGESTION_AVOIDANCE\<rparr>))\<rceil>"
    using admission_window_bound [OF h] by blast
  have "map_sum id observe_sender (admit_new_data [0, 0, 0, 0] (replicate 8000 0) 0
      (sender_init\<lparr>cwnd := 5 / 2, state := CONGESTION_AVOIDANCE\<rparr>))
      = Inr ([1, 2, 3], 5 / 2, 16, CONGESTION_AVOIDANCE)"
    by (simp add: sender_eval)
  then have keys: "map fst (send_window s') = [1, 2, 3]"
    using s' by (simp add: observe_sender_def)
  have "int (length (send_window s')) \<le> 3"
    using b by (simp add: sender_init_def ceiling_5_halves)
  with s' keys h show ?thesis by (intro conjI exI [of _ s']) simp_all
qed

section \<open>The handshake does not verify checksums\<close>

lemmas handshake_eval =
  server_handshake_def client_handshake_def verifies_on_arrival_def recvfrom_def
  zero_packet_def bytes_of_def le32_def le16_def packet_of_def rd16_def rd32_def
  verify_checksum_def calculate_checksum_def assign_checksum_def
  Let_def sum_words_zeros fold_carries.simps replicate_4
  MAX_BUFFER_SIZE_def HEADER_SIZE_def MAX_DATA_SIZE_def sizeof_Packet_def
  ACK_def FIN_def SYN_def damaged_syn_def damaged_syn_ack_def

text \<open>
  Claim C7, where the code departs from it. A SYN whose checksum does not verify is
  answered by the receiver with a SYN-ACK (\<open>ack_num = 0x11\<close>, taken from the damaged
  sequence number), and a SYN-ACK whose checksum does not verify is answered by the
  sender with the final ACK: neither side of the handshake calls \<open>verify_checksum\<close>,
  although every handshake packet is sent with a computed checksum and the receive
  loop and the ACK thread verify every packet they take, FIN and FIN-ACK included.
\<close>

theorem handshake_acts_on_damaged_packets:
  "verifies_on_arrival damaged_syn = Inr False
   \<and> map_sum id snd (server_handshake damaged_syn [] (zero_packet, [0, 0, 0, 0]))
       = Inr [[0,0,0,0, 0x11,0,0,0, 3,0, 0,0, 0,0, 0xEB,0xFF, 0,0,0,0]]
   \<and> verifies_on_arrival damaged_syn_ack = Inr False
   \<and> map_sum id snd (client_handshake damaged_syn_ack [0, 0, 0, 0])
       = Inr [[0,0,0,0, 0,0,0,0, 1,0, 0,0, 0,0, 0xFE,0xFF, 0,0,0,0],
              [0,0,0,0, 0x11,0,0,0, 2,0, 0,0, 0,0, 0xEC,0xFF, 0,0,0,0]]"
  by (simp add: handshake_eval)

section \<open>The constants\<close>

text \<open>
  Claim C9 as stated fails: the copy of the header compiled into the receiver has
  \<open>FLOW_CONTROL_WINDOW_SIZE = 20\<close> and \<open>PACKET_TIMEOUT_MS = 500\<close>.
\<close>

theorem receiver_header_copy_differs:
  "\<not> (FLOW_CONTROL_WINDOW_SIZE Server_common_h = 64
      \<and> PACKET_TIMEOUT_MS Server_common_h = 1000)"
  by simp

text \<open>
  Claim C9, amended. \<open>SERVER_PORT = 8888\<close>, \<open>MAX_BUFFER_SIZE = 1500\<close>, \<open>HEADER_SIZE = 20\<close>
  and \<open>MAX_DATA_SIZE = 1480\<close> in both copies of the header; \<open>FLOW_CONTROL_WINDOW_SIZE = 64\<close>
  and \<open>PACKET_TIMEOUT_MS = 1000\<close> in the sender's copy, the only program that reads them
  (the receiver's copy says 20 and 500); the sender starts with \<open>ssthresh = 16\<close> and
  \<open>cwnd = 1\<close>.
\<close>

theorem protocol_constants:
  "SERVER_PORT = 8888 \<and> MAX_BUFFER_SIZE = 1500 \<and> HEADER_SIZE = 20 \<and> MAX_DATA_SIZE = 1480
   \<and> FLOW_CONTROL_WINDOW_SIZE Client_common_h = 64
   \<and> PACKET_TIMEOUT_MS Client_common_h = 1000
   \<and> FLOW_CONTROL_WINDOW_SIZE Server_common_h = 20
   \<and> PACKET_TIMEOUT_MS Server_common_h = 500
   \<and> ssthresh sender_init = 16 \<and> cwnd sender_init = 1"
  by (simp add: SERVER_PORT_def MAX_BUFFER_SIZE_def HEADER_SIZE_def MAX_DATA_SIZE_def
      sender_init_def)


end
